theory Spec2Isabelle
  imports Main "HOL-Library.Word"
begin

section \<open>Values and diagnostics\<close>

text \<open>What a call can throw.\<close>

datatype exn =
    Thrown string
  | NotAFunction
  | TypeError string

text \<open>
  The values a guard inspects, each by what a guard can read of it.

  A number is an integer from \<open>- 2^53\<close> to \<open>2^53 - 1\<close>: each of them is a JavaScript
  number, and a template literal prints it in full decimal. A string is a list of characters
  with code points below 256.

  An array is the list of what \<^verbatim>\<open>v[0]\<close> to \<^verbatim>\<open>v[v.length - 1]\<close> read; it is
  converted to a string the way \<^verbatim>\<open>Array.prototype.toString\<close> does it.

  A plain object (one whose prototype is \<^verbatim>\<open>Object.prototype\<close>) has its own
  enumerable string-keyed properties, in the order of their creation; the other properties
  that \<^verbatim>\<open>v[key]\<close> finds before it reaches the standard members of
  \<^verbatim>\<open>Object.prototype\<close>, which are its own properties that are not enumerable and
  what the program has added to \<^verbatim>\<open>Object.prototype\<close>; and the outcome of its
  conversion to a string. That conversion runs methods of the object
  (\<^verbatim>\<open>toString\<close>, \<^verbatim>\<open>valueOf\<close>, \<^verbatim>\<open>Symbol.toPrimitive\<close>), which are
  code that is not held here, so that its outcome, a string or what is thrown, is part of the
  value. The same holds for any other object and for a function. The properties are data
  properties, and \<^verbatim>\<open>Object.prototype\<close> has no enumerable property.
\<close>

datatype val =
    VNull
  | VUndefined
  | VBoolean bool
  | VNumber "54 word"
  | VString string
  | VArray "val list"
  | VObject "(string \<times> val) list" "(string \<times> val) list" "exn + string"
  | VInstance "exn + string"
  | VFunction "exn + string"

text \<open>\<^verbatim>\<open>typeof v\<close>, and \<^verbatim>\<open>type(v)\<close> of index.ts.\<close>

fun typeof :: "val \<Rightarrow> string" where
  "typeof VNull = ''object''"
| "typeof VUndefined = ''undefined''"
| "typeof (VBoolean b) = ''boolean''"
| "typeof (VNumber n) = ''number''"
| "typeof (VString s) = ''string''"
| "typeof (VArray xs) = ''object''"
| "typeof (VObject own hidden conv) = ''object''"
| "typeof (VInstance conv) = ''object''"
| "typeof (VFunction conv) = ''function''"

fun isArray :: "val \<Rightarrow> bool" where
  "isArray (VArray xs) = True"
| "isArray v = False"

definition type :: "val \<Rightarrow> string" where
  "type v = (if v = VNull then ''null''
             else if v = VUndefined then ''undefined''
             else if isArray v then ''array''
             else typeof v)"

text \<open>Decimal rendering of indices and numbers, as template literals produce it.\<close>

definition digit :: "nat \<Rightarrow> char" where
  "digit d = ''0123456789'' ! (d mod 10)"

fun show_nat :: "nat \<Rightarrow> string" where
  "show_nat n = (if n < 10 then [digit n] else show_nat (n div 10) @ [digit n])"

declare show_nat.simps [simp del]


fun join :: "string \<Rightarrow> string list \<Rightarrow> string" where
  "join sep [] = []"
| "join sep [x] = x"
| "join sep (x # y # ys) = x @ sep @ join sep (y # ys)"



definition illegal :: "val \<Rightarrow> string \<Rightarrow> string" where
  "illegal v expected = ''illegal <'' @ type v @ ''> value, expected <'' @ expected @ ''>''"

text \<open>
  The order in which JavaScript lists the string keys of an object
  (\<^verbatim>\<open>Object.entries\<close>, \<^verbatim>\<open>Object.keys\<close>, \<^verbatim>\<open>for (const key in o)\<close>): first
  the keys that are array indices, which are the decimal numerals of the integers from 0 to
  \<open>2^32 - 2\<close>, in ascending numeric order, then the other keys in the order of their
  creation.
\<close>

definition digit_of :: "char \<Rightarrow> nat option" where
  "digit_of c = map_of (zip ''0123456789'' [0, 1, 2, 3, 4, 5, 6, 7, 8, 9]) c"

definition number_of :: "string \<Rightarrow> nat" where
  "number_of s = foldl (\<lambda>n c. 10 * n + (case digit_of c of None \<Rightarrow> 0 | Some d \<Rightarrow> d)) 0 s"

definition is_index :: "string \<Rightarrow> bool" where
  "is_index s \<longleftrightarrow>
     s \<noteq> [] \<and> list_all (\<lambda>c. digit_of c \<noteq> None) s \<and> (s = ''0'' \<or> hd s \<noteq> CHR ''0'') \<and>
     number_of s < 2 ^ 32 - 1"

definition object_entries :: "(string \<times> 'a) list \<Rightarrow> (string \<times> 'a) list" where
  "object_entries ps =
     sort_key (\<lambda>p. number_of (fst p)) (filter (\<lambda>p. is_index (fst p)) ps) @
     filter (\<lambda>p. \<not> is_index (fst p)) ps"

section \<open>Function objects, outcomes and the resolver state\<close>

text \<open>
  A guarding is a function object: a guard, known by its reference, or a zero-argument
  factory, known by its identity. What \<^verbatim>\<open>resolve\<close> hands back is whatever the call
  of the function returned: a guard reference, or a string when a guard that declares no
  parameter was taken for a factory.
\<close>

type_synonym gref = nat
type_synonym fid = nat

datatype guarding = Guard gref | Factory fid

datatype resolved = RGuard gref | RString string

text \<open>
  An outcome is \<open>None\<close> when the call does not return within the fuel (the fuel bounds
  the depth of nested calls, and a recursion that never ends has no outcome with any fuel),
  \<open>Some (Inl e)\<close> when it throws and \<open>Some (Inr x)\<close> when it returns \<open>x\<close>.
\<close>

type_synonym diag = "(exn + string) option"

definition ok :: "string \<Rightarrow> diag" where
  "ok s = Some (Inr s)"

text \<open>
  A function object that is a guard: the deferred-lookup guard of cache.ts, which closes over
  its factory key, or any other guard, given by the number of parameters it declares and its
  body. The body calls the guards it has captured through its first argument.
\<close>

datatype closure =
    Thunk guarding
  | Fn nat "(resolved \<Rightarrow> val \<Rightarrow> diag) \<Rightarrow> val \<Rightarrow> diag"

text \<open>
  The state: the cache of cache.ts, the guards created so far (a reference is an index), and
  two observation fields that the program itself never reads: how many times each function
  was invoked as a factory, and the guard calls made by factory bodies with their results.
\<close>

record state =
  cache :: "guarding \<Rightarrow> resolved option"
  funcs :: "closure list"
  calls :: "guarding \<Rightarrow> nat"
  trace :: "(resolved \<times> val \<times> string) list"

definition init :: state where
  "init = \<lparr>cache = Map.empty, funcs = [], calls = (\<lambda>k. 0), trace = []\<rparr>"

text \<open>Calling what was resolved: a string is not callable.\<close>

definition call_with :: "(gref \<Rightarrow> val \<Rightarrow> diag) \<Rightarrow> resolved \<Rightarrow> val \<Rightarrow> diag" where
  "call_with app r v = (case r of RGuard g \<Rightarrow> app g v | RString s \<Rightarrow> Some (Inl NotAFunction))"

text \<open>Truthiness of a cache entry, for \<^verbatim>\<open>guard && guard !== thunk\<close>.\<close>

definition truthy :: "resolved \<Rightarrow> bool" where
  "truthy e = (case e of RGuard g \<Rightarrow> True | RString s \<Rightarrow> s \<noteq> [])"

text \<open>
  The body of the deferred-lookup guard (cache.ts, lines 100 to 106), for the thunk at
  reference \<open>thunk\<close> with key \<open>key\<close>, reading the cache of the state it is called in.
\<close>

definition thunk_body ::
  "(resolved \<Rightarrow> val \<Rightarrow> diag) \<Rightarrow> state \<Rightarrow> gref \<Rightarrow> guarding \<Rightarrow> val \<Rightarrow> diag" where
  "thunk_body call st thunk key v =
     (case cache st key of
        None \<Rightarrow> ok []
      | Some guard \<Rightarrow> if truthy guard \<and> guard \<noteq> RGuard thunk then call guard v else ok [])"

text \<open>Calling the guard at a reference, with fuel for the depth of nested guard calls.\<close>

primrec apply_guard :: "nat \<Rightarrow> state \<Rightarrow> gref \<Rightarrow> val \<Rightarrow> diag" where
  "apply_guard 0 st g v = None"
| "apply_guard (Suc n) st g v =
     (if g < length (funcs st)
      then (case funcs st ! g of
              Thunk key \<Rightarrow> thunk_body (call_with (apply_guard n st)) st g key v
            | Fn params body \<Rightarrow> body (call_with (apply_guard n st)) v)
      else None)"

definition call_at :: "nat \<Rightarrow> state \<Rightarrow> resolved \<Rightarrow> val \<Rightarrow> diag" where
  "call_at n st = call_with (apply_guard n st)"

text \<open>\<^verbatim>\<open>source.length\<close>: the number of declared parameters.\<close>

definition declared :: "state \<Rightarrow> guarding \<Rightarrow> nat" where
  "declared st source =
     (case source of
        Factory f \<Rightarrow> 0
      | Guard g \<Rightarrow> (if g < length (funcs st)
                    then (case funcs st ! g of Thunk key \<Rightarrow> 1 | Fn params body \<Rightarrow> params)
                    else 1))"

section \<open>Code that builds guards\<close>

text \<open>
  The code of a factory, and any other code that builds guards: it returns a guard, throws,
  calls \<^verbatim>\<open>resolve\<close>, creates a guard function, or calls a guard.
\<close>

datatype script =
    Return gref
  | Throw string
  | Resolve guarding "resolved \<Rightarrow> script"
  | Create closure "gref \<Rightarrow> script"
  | Invoke resolved val "string \<Rightarrow> script"

type_synonym 'a outcome = "((exn + 'a) \<times> state) option"

text \<open>
  \<^verbatim>\<open>factory()\<close> inside materialize: a factory runs its code; a guard that declares no
  parameter, taken for a factory, is called with no argument and returns its diagnostic.
\<close>

definition invoke_with ::
  "(script \<Rightarrow> state \<Rightarrow> gref outcome) \<Rightarrow> (state \<Rightarrow> gref \<Rightarrow> val \<Rightarrow> diag) \<Rightarrow> (fid \<Rightarrow> script) \<Rightarrow>
   guarding \<Rightarrow> state \<Rightarrow> resolved outcome" where
  "invoke_with runner app env key st =
     (let st' = st\<lparr>calls := (calls st)(key := calls st key + 1)\<rparr>
      in case key of
           Factory f \<Rightarrow>
             (case runner (env f) st' of
                None \<Rightarrow> None
              | Some (Inl e, st'') \<Rightarrow> Some (Inl e, st'')
              | Some (Inr g, st'') \<Rightarrow> Some (Inr (RGuard g), st''))
         | Guard g \<Rightarrow>
             (case app st' g VUndefined of
                None \<Rightarrow> None
              | Some (Inl e) \<Rightarrow> Some (Inl e, st')
              | Some (Inr s) \<Rightarrow> Some (Inr (RString s), st')))"

text \<open>\<^verbatim>\<open>materialize\<close> of cache.ts, lines 93 to 122.\<close>

definition materialize_with ::
  "(guarding \<Rightarrow> state \<Rightarrow> resolved outcome) \<Rightarrow> guarding \<Rightarrow> state \<Rightarrow> resolved outcome" where
  "materialize_with invoke key st =
     (case cache st key of
        None \<Rightarrow>
          (let thunk = length (funcs st);
               st1 = st\<lparr>funcs := funcs st @ [Thunk key]\<rparr>;
               st2 = st1\<lparr>cache := (cache st1)(key \<mapsto> RGuard thunk)\<rparr>
           in case invoke key st2 of
                None \<Rightarrow> None
              | Some (Inl e, st3) \<Rightarrow> Some (Inl e, st3)
              | Some (Inr guard, st3) \<Rightarrow>
                  Some (Inr guard, st3\<lparr>cache := (cache st3)(key \<mapsto> guard)\<rparr>))
      | Some cached \<Rightarrow> Some (Inr cached, st))"

text \<open>\<^verbatim>\<open>resolve\<close> of cache.ts on a function: a guard has declared parameters.\<close>

definition resolve_with ::
  "(guarding \<Rightarrow> state \<Rightarrow> resolved outcome) \<Rightarrow> guarding \<Rightarrow> state \<Rightarrow> resolved outcome" where
  "resolve_with invoke source st =
     (case source of
        Guard g \<Rightarrow>
          (if declared st source > 0 then Some (Inr (RGuard g), st)
           else materialize_with invoke source st)
      | Factory f \<Rightarrow> materialize_with invoke source st)"

text \<open>
  Running code. A call of \<^verbatim>\<open>resolve\<close> goes through \<open>invoke\<close>, which runs the
  function found to be a factory, and a call of a guard goes through \<open>caller\<close>.
\<close>

primrec run_body ::
  "(guarding \<Rightarrow> state \<Rightarrow> resolved outcome) \<Rightarrow> (state \<Rightarrow> resolved \<Rightarrow> val \<Rightarrow> diag) \<Rightarrow>
   script \<Rightarrow> state \<Rightarrow> gref outcome" where
  "run_body invoke caller (Return g) st = Some (Inr g, st)"
| "run_body invoke caller (Throw m) st = Some (Inl (Thrown m), st)"
| "run_body invoke caller (Resolve source k) st =
     (case resolve_with invoke source st of
        None \<Rightarrow> None
      | Some (Inl e, st') \<Rightarrow> Some (Inl e, st')
      | Some (Inr r, st') \<Rightarrow> run_body invoke caller (k r) st')"
| "run_body invoke caller (Create c k) st =
     run_body invoke caller (k (length (funcs st))) (st\<lparr>funcs := funcs st @ [c]\<rparr>)"
| "run_body invoke caller (Invoke r v k) st =
     (case caller st r v of
        None \<Rightarrow> None
      | Some (Inl e) \<Rightarrow> Some (Inl e, st)
      | Some (Inr d) \<Rightarrow> run_body invoke caller (k d) (st\<lparr>trace := trace st @ [(r, v, d)]\<rparr>))"

text \<open>
  The fuel bounds the depth of nested calls: with fuel \<open>n\<close>, factories are invoked within
  factories up to depth \<open>n\<close>, and guards call guards up to depth \<open>n\<close>.
\<close>

primrec invoke :: "nat \<Rightarrow> (fid \<Rightarrow> script) \<Rightarrow> guarding \<Rightarrow> state \<Rightarrow> resolved outcome" where
  "invoke 0 env key st = None"
| "invoke (Suc n) env key st =
     invoke_with (run_body (invoke n env) (call_at n)) (apply_guard n) env key st"

definition run :: "nat \<Rightarrow> (fid \<Rightarrow> script) \<Rightarrow> script \<Rightarrow> state \<Rightarrow> gref outcome" where
  "run n env = run_body (invoke n env) (call_at n)"

definition materialize :: "nat \<Rightarrow> (fid \<Rightarrow> script) \<Rightarrow> guarding \<Rightarrow> state \<Rightarrow> resolved outcome" where
  "materialize n env = materialize_with (invoke n env)"

definition resolve :: "nat \<Rightarrow> (fid \<Rightarrow> script) \<Rightarrow> guarding \<Rightarrow> state \<Rightarrow> resolved outcome" where
  "resolve n env = resolve_with (invoke n env)"

section \<open>Guards of index.ts\<close>

subsection \<open>Primitive guards\<close>

definition aNull_guard :: "(resolved \<Rightarrow> val \<Rightarrow> diag) \<Rightarrow> val \<Rightarrow> diag" where
  "aNull_guard call v = ok (if v = VNull then [] else illegal v ''null'')"

definition aBoolean_guard :: "(resolved \<Rightarrow> val \<Rightarrow> diag) \<Rightarrow> val \<Rightarrow> diag" where
  "aBoolean_guard call v = ok (if typeof v = ''boolean'' then [] else illegal v ''boolean'')"

definition aNumber_guard :: "(resolved \<Rightarrow> val \<Rightarrow> diag) \<Rightarrow> val \<Rightarrow> diag" where
  "aNumber_guard call v = ok (if typeof v = ''number'' then [] else illegal v ''number'')"

definition aString_guard :: "(resolved \<Rightarrow> val \<Rightarrow> diag) \<Rightarrow> val \<Rightarrow> diag" where
  "aString_guard call v = ok (if typeof v = ''string'' then [] else illegal v ''string'')"

definition aFunction_guard :: "(resolved \<Rightarrow> val \<Rightarrow> diag) \<Rightarrow> val \<Rightarrow> diag" where
  "aFunction_guard call v = ok (if typeof v = ''function'' then [] else illegal v ''function'')"

definition anUnknown_guard :: "(resolved \<Rightarrow> val \<Rightarrow> diag) \<Rightarrow> val \<Rightarrow> diag" where
  "anUnknown_guard call v = ok []"

text \<open>
  The factories create a new guard function at every call. The guards declare the
  parameter \<^verbatim>\<open>v\<close>, except the one of \<^verbatim>\<open>anUnknown\<close>, which is \<^verbatim>\<open>() => ""\<close>.
\<close>

definition aNull :: "(gref \<Rightarrow> script) \<Rightarrow> script" where
  "aNull k = Create (Fn 1 aNull_guard) k"

definition aBoolean :: "(gref \<Rightarrow> script) \<Rightarrow> script" where
  "aBoolean k = Create (Fn 1 aBoolean_guard) k"

definition aNumber :: "(gref \<Rightarrow> script) \<Rightarrow> script" where
  "aNumber k = Create (Fn 1 aNumber_guard) k"

definition aString :: "(gref \<Rightarrow> script) \<Rightarrow> script" where
  "aString k = Create (Fn 1 aString_guard) k"

definition aFunction :: "(gref \<Rightarrow> script) \<Rightarrow> script" where
  "aFunction k = Create (Fn 1 aFunction_guard) k"

definition anUnknown :: "(gref \<Rightarrow> script) \<Rightarrow> script" where
  "anUnknown k = Create (Fn 0 anUnknown_guard) k"

text \<open>\<^verbatim>\<open>resolve\<close> on an optional source: \<^verbatim>\<open>undefined\<close> passes through.\<close>

definition resolve_opt :: "guarding option \<Rightarrow> (resolved option \<Rightarrow> script) \<Rightarrow> script" where
  "resolve_opt source k = (case source of None \<Rightarrow> k None | Some s \<Rightarrow> Resolve s (\<lambda>r. k (Some r)))"

subsection \<open>anArray\<close>

fun elements :: "val \<Rightarrow> val list" where
  "elements (VArray xs) = xs"
| "elements v = []"

text \<open>The loop of lines 368 to 376, from \<open>index\<close> on.\<close>

function array_loop :: "(val \<Rightarrow> diag) \<Rightarrow> val list \<Rightarrow> nat \<Rightarrow> diag" where
  "array_loop guard v index =
     (if index < length v
      then (case guard (v ! index) of
              None \<Rightarrow> None
            | Some (Inl e) \<Rightarrow> Some (Inl e)
            | Some (Inr result) \<Rightarrow>
                if result \<noteq> [] then ok (''['' @ show_nat index @ '']: '' @ result)
                else array_loop guard v (index + 1))
      else ok [])"
  by pat_completeness auto
termination
  by (relation "measure (\<lambda>(guard, v, index). length v - index)") auto

declare array_loop.simps [simp del]

definition anArray_guard :: "resolved option \<Rightarrow> (resolved \<Rightarrow> val \<Rightarrow> diag) \<Rightarrow> val \<Rightarrow> diag" where
  "anArray_guard guard call v =
     (if \<not> isArray v then ok (illegal v ''array'')
      else (case guard of
              None \<Rightarrow> ok []
            | Some g \<Rightarrow> array_loop (call g) (elements v) 0))"

definition anArray :: "guarding option \<Rightarrow> (gref \<Rightarrow> script) \<Rightarrow> script" where
  "anArray element k = resolve_opt element (\<lambda>guard. Create (Fn 1 (anArray_guard guard)) k)"

subsection \<open>anObject\<close>

text \<open>\<^verbatim>\<open>isObject\<close>, lines 440 to 446: an object whose prototype is \<^verbatim>\<open>Object.prototype\<close>.\<close>

fun isObject :: "val \<Rightarrow> bool" where
  "isObject (VObject own hidden conv) = True"
| "isObject v = False"



text \<open>
  The standard members of \<^verbatim>\<open>Object.prototype\<close>, each with the text its conversion
  to a string gives (for a built-in function the form V8 prints). All of them are functions
  but \<^verbatim>\<open>__proto__\<close>, which reads as \<^verbatim>\<open>Object.prototype\<close> itself on a plain object.
\<close>

definition native :: "string \<Rightarrow> string" where
  "native name = ''function '' @ name @ ''() { [native code] }''"

definition object_prototype :: "(string \<times> string) list" where
  "object_prototype =
     [(''constructor'', native ''Object''),
      (''__defineGetter__'', native ''__defineGetter__''),
      (''__defineSetter__'', native ''__defineSetter__''),
      (''hasOwnProperty'', native ''hasOwnProperty''),
      (''__lookupGetter__'', native ''__lookupGetter__''),
      (''__lookupSetter__'', native ''__lookupSetter__''),
      (''isPrototypeOf'', native ''isPrototypeOf''),
      (''propertyIsEnumerable'', native ''propertyIsEnumerable''),
      (''toString'', native ''toString''),
      (''valueOf'', native ''valueOf''),
      (''__proto__'', ''[object Object]''),
      (''toLocaleString'', native ''toLocaleString'')]"




definition object_guard :: "(resolved \<Rightarrow> val \<Rightarrow> diag) \<Rightarrow> val \<Rightarrow> diag" where
  "object_guard call v = ok (if isObject v then [] else illegal v ''object'')"















subsection \<open>Combinators\<close>

text \<open>\<^verbatim>\<open>sources.map(source => resolve(source))\<close>.\<close>

fun resolve_all :: "guarding list \<Rightarrow> (resolved list \<Rightarrow> script) \<Rightarrow> script" where
  "resolve_all [] k = k []"
| "resolve_all (source # sources) k =
     Resolve source (\<lambda>r. resolve_all sources (\<lambda>rs. k (r # rs)))"

fun all_loop :: "(resolved \<Rightarrow> val \<Rightarrow> diag) \<Rightarrow> val \<Rightarrow> resolved list \<Rightarrow> diag" where
  "all_loop call v [] = ok []"
| "all_loop call v (guard # guards) =
     (case call guard v of
        None \<Rightarrow> None
      | Some (Inl e) \<Rightarrow> Some (Inl e)
      | Some (Inr result) \<Rightarrow> if result \<noteq> [] then ok result else all_loop call v guards)"

definition all0_guard :: "(resolved \<Rightarrow> val \<Rightarrow> diag) \<Rightarrow> val \<Rightarrow> diag" where
  "all0_guard call v = ok []"

definition all1_guard :: "resolved list \<Rightarrow> (resolved \<Rightarrow> val \<Rightarrow> diag) \<Rightarrow> val \<Rightarrow> diag" where
  "all1_guard guards call v = call (guards ! 0) v"

definition all2_guard :: "resolved \<Rightarrow> resolved \<Rightarrow> (resolved \<Rightarrow> val \<Rightarrow> diag) \<Rightarrow> val \<Rightarrow> diag" where
  "all2_guard first second call v =
     (case call first v of
        None \<Rightarrow> None
      | Some (Inl e) \<Rightarrow> Some (Inl e)
      | Some (Inr result) \<Rightarrow> if result \<noteq> [] then ok result else call second v)"

definition alln_guard :: "resolved list \<Rightarrow> (resolved \<Rightarrow> val \<Rightarrow> diag) \<Rightarrow> val \<Rightarrow> diag" where
  "alln_guard guards call v = all_loop call v guards"

definition all_closure :: "resolved list \<Rightarrow> closure" where
  "all_closure guards =
     (if length guards = 0 then Fn 0 all0_guard
      else if length guards = 1 then Fn 1 (all1_guard guards)
      else if length guards = 2 then Fn 1 (all2_guard (guards ! 0) (guards ! 1))
      else Fn 1 (alln_guard guards))"

definition all :: "guarding list \<Rightarrow> (gref \<Rightarrow> script) \<Rightarrow> script" where
  "all sources k = resolve_all sources (\<lambda>guards. Create (all_closure guards) k)"

text \<open>
  \<^verbatim>\<open>types\<close>, lines 54 to 56: an object with five properties of its own, whose prototype
  is \<^verbatim>\<open>Object.prototype\<close>. The capitals are those of \<^verbatim>\<open>\p{Lu}\<close> among the code
  points below 256, and \<^verbatim>\<open>toLowerCase\<close> moves each of them to its small letter.
\<close>

definition isCapital :: "char \<Rightarrow> bool" where
  "isCapital c =
     (let n = (of_char c :: nat)
      in 65 \<le> n \<and> n \<le> 90 \<or> 192 \<le> n \<and> n \<le> 214 \<or> 216 \<le> n \<and> n \<le> 222)"

definition toLowerCase :: "string \<Rightarrow> string" where
  "toLowerCase s = map (\<lambda>c. if isCapital c then char_of (of_char c + (32 :: nat)) else c) s"

definition types :: "(string \<times> string) list" where
  "types = map (\<lambda>key. (key, toLowerCase key)) [''Null'', ''Boolean'', ''Number'', ''String'', ''Function'']"

text \<open>\<^verbatim>\<open>name.replace(/^an?(?=\p{Lu})/u, "")\<close>.\<close>

fun strip_article :: "string \<Rightarrow> string" where
  "strip_article (a # n # c # cs) =
     (if a = CHR ''a'' \<and> n = CHR ''n'' \<and> isCapital c then c # cs
      else if a = CHR ''a'' \<and> isCapital n then n # c # cs
      else a # n # c # cs)"
| "strip_article [a, c] = (if a = CHR ''a'' \<and> isCapital c then [c] else [a, c])"
| "strip_article name = name"

text \<open>
  \<^verbatim>\<open>label\<close>, lines 674 to 680, as the text it contributes to the message:
  \<^verbatim>\<open>types[stripped]\<close> finds a property of \<^verbatim>\<open>types\<close> itself or a member of
  \<^verbatim>\<open>Object.prototype\<close>, and only when it finds neither is the stripped name taken.
\<close>

definition label :: "string \<Rightarrow> string" where
  "label name =
     (let stripped = strip_article name
      in case map_of types stripped of
           Some t \<Rightarrow> t
         | None \<Rightarrow> (case map_of object_prototype stripped of Some conv \<Rightarrow> conv | None \<Rightarrow> stripped))"

text \<open>
  \<^verbatim>\<open>expected\<close>, lines 670 to 671; on no name at all the last name is \<^verbatim>\<open>undefined\<close>.
\<close>

definition expected_of :: "string list \<Rightarrow> string" where
  "expected_of names =
     (if length names = 1 then names ! 0
      else join '', '' (butlast names) @ '' or '' @
           (if names = [] then ''undefined'' else last names))"

definition error_of :: "string \<Rightarrow> val \<Rightarrow> string" where
  "error_of expected v = ''unexpected <'' @ type v @ ''> value, expected '' @ expected"

fun any_loop :: "(resolved \<Rightarrow> val \<Rightarrow> diag) \<Rightarrow> string \<Rightarrow> val \<Rightarrow> resolved list \<Rightarrow> diag" where
  "any_loop call expected v [] = ok (error_of expected v)"
| "any_loop call expected v (guard # guards) =
     (case call guard v of
        None \<Rightarrow> None
      | Some (Inl e) \<Rightarrow> Some (Inl e)
      | Some (Inr result) \<Rightarrow> if result = [] then ok [] else any_loop call expected v guards)"

definition any0_guard :: "(resolved \<Rightarrow> val \<Rightarrow> diag) \<Rightarrow> val \<Rightarrow> diag" where
  "any0_guard call v = ok (''unexpected <'' @ type v @ ''> value'')"

definition any1_guard :: "string \<Rightarrow> resolved \<Rightarrow> (resolved \<Rightarrow> val \<Rightarrow> diag) \<Rightarrow> val \<Rightarrow> diag" where
  "any1_guard expected first call v =
     (case call first v of
        None \<Rightarrow> None
      | Some (Inl e) \<Rightarrow> Some (Inl e)
      | Some (Inr result) \<Rightarrow> if result = [] then ok [] else ok (error_of expected v))"

definition any2_guard ::
  "string \<Rightarrow> resolved \<Rightarrow> resolved \<Rightarrow> (resolved \<Rightarrow> val \<Rightarrow> diag) \<Rightarrow> val \<Rightarrow> diag" where
  "any2_guard expected first second call v =
     (case call first v of
        None \<Rightarrow> None
      | Some (Inl e) \<Rightarrow> Some (Inl e)
      | Some (Inr result) \<Rightarrow>
          if result = [] then ok []
          else (case call second v of
                  None \<Rightarrow> None
                | Some (Inl e) \<Rightarrow> Some (Inl e)
                | Some (Inr result2) \<Rightarrow> if result2 = [] then ok [] else ok (error_of expected v)))"

definition anyn_guard :: "string \<Rightarrow> resolved list \<Rightarrow> (resolved \<Rightarrow> val \<Rightarrow> diag) \<Rightarrow> val \<Rightarrow> diag" where
  "anyn_guard expected guards call v = any_loop call expected v guards"

definition any_closure :: "string list \<Rightarrow> resolved list \<Rightarrow> closure" where
  "any_closure keys guards =
     (let names = map (\<lambda>name. ''<'' @ label name @ ''>'') keys;
          expected = expected_of names
      in if length guards = 0 then Fn 1 any0_guard
         else if length guards = 1 then Fn 1 (any1_guard expected (guards ! 0))
         else if length guards = 2 then Fn 1 (any2_guard expected (guards ! 0) (guards ! 1))
         else Fn 1 (anyn_guard expected guards))"

text \<open>
  \<^verbatim>\<open>any\<close>, lines 664 to 723: \<open>sources\<close> is an object, given by its properties in the
  order of their declaration, and \<^verbatim>\<open>Object.entries(sources)\<close> lists them.
\<close>

definition any :: "(string \<times> guarding) list \<Rightarrow> (gref \<Rightarrow> script) \<Rightarrow> script" where
  "any sources k =
     resolve_all (map snd (object_entries sources))
       (\<lambda>guards. Create (any_closure (map fst (object_entries sources)) guards) k)"

section \<open>Objects and the validating cast\<close>

text \<open>
  The objects \<^verbatim>\<open>as\<close> brands and freezes. An object has an identity (its index in the
  heap), a prototype (the reference of another object, or none), an extensibility flag and
  its own properties in the order of their creation, each a data property with its
  attributes. A key is a string or a symbol, the symbol \<^verbatim>\<open>Guarded\<close> or another one.
  The value of a property is held by its structure; the value under \<^verbatim>\<open>Guarded\<close> is
  the guarding that validated the object. An object is an array or an ordinary object.
  \<^verbatim>\<open>Object.prototype\<close> is the object at reference 0; the heap lists the properties
  the program has given it, and its standard members stand behind them (\<open>inherited\<close>).
\<close>

datatype pkey = Guarded | Name string | Symbol nat

datatype slot = Data val | Mark guarding

record pdesc =
  pvalue :: slot
  writable :: bool
  enumerable :: bool
  configurable :: bool

datatype okind = OrdinaryObject | ArrayObject

record jsobject =
  okind :: okind
  proto :: "nat option"
  extensible :: bool
  props :: "(pkey \<times> pdesc) list"

type_synonym heap = "jsobject list"

definition Object_prototype :: nat where
  "Object_prototype = 0"

text \<open>What a cast receives: a reference to an object, or a value that is not an object.\<close>

datatype input = Ref nat | Prim val

text \<open>\<^verbatim>\<open>v !== null && typeof v === "object"\<close>.\<close>

definition is_object :: "heap \<Rightarrow> input \<Rightarrow> bool" where
  "is_object h v = (case v of Ref a \<Rightarrow> a < length h | Prim x \<Rightarrow> False)"

text \<open>
  Reading a property, \<^verbatim>\<open>o[key]\<close>: the object's own property, or else the property
  its prototype reads, up the prototype chain. A chain has no cycle, so that it is no longer
  than the heap.
\<close>

primrec find_property :: "nat \<Rightarrow> heap \<Rightarrow> nat \<Rightarrow> pkey \<Rightarrow> pdesc option" where
  "find_property 0 h a key = None"
| "find_property (Suc n) h a key =
     (if a < length h
      then (case map_of (props (h ! a)) key of
              Some d \<Rightarrow> Some d
            | None \<Rightarrow> (case proto (h ! a) of None \<Rightarrow> None | Some p \<Rightarrow> find_property n h p key))
      else None)"

text \<open>\<^verbatim>\<open>v[Guarded]\<close>, line 226.\<close>

definition get_guarded :: "heap \<Rightarrow> input \<Rightarrow> slot option" where
  "get_guarded h v =
     (case v of
        Ref a \<Rightarrow> map_option pvalue (find_property (length h) h a Guarded)
      | Prim x \<Rightarrow> None)"

text \<open>
  The value a guard sees when it is given a reference. An array shows what its indices below
  its length read. An ordinary object whose prototype is \<^verbatim>\<open>Object.prototype\<close> is a
  plain object: it shows its own enumerable string-keyed properties, and behind them its other
  string-keyed properties and those the heap lists up its prototype chain. Converting an
  object to a string runs its methods, which are code the heap does not hold: the outcome of
  the conversion of the object at a reference is taken as given, by \<open>conv\<close>.
\<close>

definition data_of :: "pdesc option \<Rightarrow> val" where
  "data_of d = (case d of Some p \<Rightarrow> (case pvalue p of Data x \<Rightarrow> x | Mark g \<Rightarrow> VUndefined)
                        | None \<Rightarrow> VUndefined)"

definition array_length :: "jsobject \<Rightarrow> nat" where
  "array_length obj =
     (case data_of (map_of (props obj) (Name ''length'')) of VNumber n \<Rightarrow> nat (sint n) | _ \<Rightarrow> 0)"

definition named_entries :: "(pdesc \<Rightarrow> bool) \<Rightarrow> jsobject \<Rightarrow> (string \<times> val) list" where
  "named_entries shown obj =
     concat (map (\<lambda>(k, d). case (k, pvalue d) of
                              (Name s, Data x) \<Rightarrow> (if shown d then [(s, x)] else [])
                            | _ \<Rightarrow> [])
                 (props obj))"

primrec ancestors :: "nat \<Rightarrow> heap \<Rightarrow> nat option \<Rightarrow> nat list" where
  "ancestors 0 h p = []"
| "ancestors (Suc n) h p =
     (case p of
        None \<Rightarrow> []
      | Some a \<Rightarrow> (if a < length h then a # ancestors n h (proto (h ! a)) else []))"

definition view_object :: "(exn + string) \<Rightarrow> heap \<Rightarrow> nat \<Rightarrow> val" where
  "view_object conv h a =
     (case okind (h ! a) of
        ArrayObject \<Rightarrow>
          VArray (map (\<lambda>i. data_of (find_property (length h) h a (Name (show_nat i))))
                      [0..<array_length (h ! a)])
      | OrdinaryObject \<Rightarrow>
          (if proto (h ! a) = Some Object_prototype
           then VObject (named_entries enumerable (h ! a))
                        (named_entries (\<lambda>d. \<not> enumerable d) (h ! a) @
                         concat (map (\<lambda>b. named_entries (\<lambda>d. True) (h ! b))
                                     (ancestors (length h) h (proto (h ! a)))))
                        conv
           else VInstance conv))"

definition view :: "(heap \<Rightarrow> nat \<Rightarrow> exn + string) \<Rightarrow> heap \<Rightarrow> input \<Rightarrow> val" where
  "view conv h v =
     (case v of
        Ref a \<Rightarrow> (if a < length h then view_object (conv h a) h a else VUndefined)
      | Prim x \<Rightarrow> x)"

text \<open>
  \<^verbatim>\<open>Object.defineProperty(o, Guarded, {value: guarding, enumerable: false,
  configurable: true})\<close>: a new property needs an extensible object and is not writable; an
  existing one is redefined when it is configurable and keeps its writable attribute.
\<close>

definition define_guarded :: "jsobject \<Rightarrow> guarding \<Rightarrow> exn + jsobject" where
  "define_guarded obj guarding =
     (case map_of (props obj) Guarded of
        None \<Rightarrow>
          (if extensible obj
           then Inr (obj\<lparr>props := props obj @
                  [(Guarded, \<lparr>pvalue = Mark guarding, writable = False,
                              enumerable = False, configurable = True\<rparr>)]\<rparr>)
           else Inl (TypeError ''Cannot define property, object is not extensible''))
      | Some cur \<Rightarrow>
          (if configurable cur
           then Inr (obj\<lparr>props := map (\<lambda>(k, d). if k = Guarded
                        then (k, \<lparr>pvalue = Mark guarding, writable = writable d,
                                  enumerable = False, configurable = True\<rparr>)
                        else (k, d)) (props obj)\<rparr>)
           else Inl (TypeError ''Cannot redefine property'')))"

text \<open>\<^verbatim>\<open>Object.freeze\<close> and \<^verbatim>\<open>Object.isFrozen\<close>.\<close>

definition freeze :: "jsobject \<Rightarrow> jsobject" where
  "freeze obj =
     obj\<lparr>extensible := False,
         props := map (\<lambda>(k, d). (k, d\<lparr>writable := False, configurable := False\<rparr>)) (props obj)\<rparr>"

definition isFrozen :: "jsobject \<Rightarrow> bool" where
  "isFrozen obj =
     (\<not> extensible obj \<and> list_all (\<lambda>(k, d). \<not> writable d \<and> \<not> configurable d) (props obj))"

text \<open>
  \<^verbatim>\<open>Reflect.ownKeys(o)\<close>: the keys that are array indices in ascending order, then the
  other strings and then the symbols, both in the order of their creation.
\<close>

definition key_index :: "pkey \<Rightarrow> nat option" where
  "key_index k = (case k of Name s \<Rightarrow> (if is_index s then Some (number_of s) else None)
                          | _ \<Rightarrow> None)"

definition is_name :: "pkey \<Rightarrow> bool" where
  "is_name k = (case k of Name s \<Rightarrow> True | _ \<Rightarrow> False)"

definition own_keys :: "(pkey \<times> 'a) list \<Rightarrow> (pkey \<times> 'a) list" where
  "own_keys ps =
     sort_key (\<lambda>p. case key_index (fst p) of Some i \<Rightarrow> i | None \<Rightarrow> 0)
       (filter (\<lambda>p. key_index (fst p) \<noteq> None) ps) @
     filter (\<lambda>p. key_index (fst p) = None \<and> is_name (fst p)) ps @
     filter (\<lambda>p. \<not> is_name (fst p)) ps"

text \<open>
  \<^verbatim>\<open>extensible(o)\<close>, lines 248 to 253: a new ordinary object, with prototype
  \<^verbatim>\<open>Object.prototype\<close>, that is given the own properties of \<open>o\<close> but the one under
  \<^verbatim>\<open>Guarded\<close>, in the order of \<^verbatim>\<open>Reflect.ownKeys\<close>, each with the attributes it
  has on \<open>o\<close>.
\<close>

definition extensible_copy :: "jsobject \<Rightarrow> jsobject" where
  "extensible_copy obj =
     \<lparr>okind = OrdinaryObject, proto = Some Object_prototype, extensible = True,
      props = filter (\<lambda>(key, d). key \<noteq> Guarded) (own_keys (props obj))\<rparr>"

text \<open>\<^verbatim>\<open>brand(o)\<close>, lines 239 to 246, on the object at \<open>a\<close>.\<close>

definition brand :: "guarding \<Rightarrow> heap \<Rightarrow> nat \<Rightarrow> (exn + input) \<times> heap" where
  "brand guarding h a =
     (if extensible (h ! a)
      then (case define_guarded (h ! a) guarding of
              Inl e \<Rightarrow> (Inl e, h)
            | Inr obj \<Rightarrow> (Inr (Ref a), h[a := freeze obj]))
      else (case define_guarded (extensible_copy (h ! a)) guarding of
              Inl e \<Rightarrow> (Inl e, h @ [extensible_copy (h ! a)])
            | Inr obj \<Rightarrow> (Inr (Ref (length h)), h @ [freeze obj])))"

text \<open>
  The function \<^verbatim>\<open>as(guarding)\<close> returns, lines 222 to 263, with the resolved
  \<open>guard\<close> and the \<open>guarding\<close> it closes over, called in state \<open>st\<close> on heap \<open>h\<close>.
\<close>

definition as_cast ::
  "(heap \<Rightarrow> nat \<Rightarrow> exn + string) \<Rightarrow> resolved \<Rightarrow> guarding \<Rightarrow> nat \<Rightarrow> state \<Rightarrow> heap \<Rightarrow> input \<Rightarrow>
   ((exn + input) \<times> heap) option" where
  "as_cast conv guard guarding n st h v =
     (let object = is_object h v
      in if object \<and> get_guarded h v = Some (Mark guarding) then Some (Inr v, h)
         else (case call_at n st guard (view conv h v) of
                 None \<Rightarrow> None
               | Some (Inl e) \<Rightarrow> Some (Inl e, h)
               | Some (Inr result) \<Rightarrow>
                   if result = []
                   then (case v of Ref a \<Rightarrow> (if object then Some (brand guarding h a) else Some (Inr v, h))
                                 | Prim x \<Rightarrow> Some (Inr v, h))
                   else Some (Inl (TypeError result), h)))"

text \<open>\<^verbatim>\<open>as(guarding)\<close>: the guarding is resolved once, the cast is returned.\<close>

definition as_of ::
  "(heap \<Rightarrow> nat \<Rightarrow> exn + string) \<Rightarrow> nat \<Rightarrow> (fid \<Rightarrow> script) \<Rightarrow> guarding \<Rightarrow> state \<Rightarrow>
   (nat \<Rightarrow> state \<Rightarrow> heap \<Rightarrow> input \<Rightarrow> ((exn + input) \<times> heap) option) outcome" where
  "as_of conv n env guarding st =
     (case resolve n env guarding st of
        None \<Rightarrow> None
      | Some (Inl e, st') \<Rightarrow> Some (Inl e, st')
      | Some (Inr guard, st') \<Rightarrow> Some (Inr (as_cast conv guard guarding), st'))"

text \<open>
  What a caller can try on a property of an object afterwards: an assignment to it, its
  deletion, its redefinition with a full data descriptor. The result says whether the attempt
  succeeded and gives the object after it; there is none when the object has no property of
  its own under the key, and none for the length of an array, whose change moves other
  properties.
\<close>

datatype mutation = Assign pkey slot | Delete pkey | Define pkey pdesc

fun target :: "mutation \<Rightarrow> pkey" where
  "target (Assign key x) = key"
| "target (Delete key) = key"
| "target (Define key new) = key"

definition mutate :: "jsobject \<Rightarrow> mutation \<Rightarrow> (bool \<times> jsobject) option" where
  "mutate obj m =
     (if okind obj = ArrayObject \<and> target m = Name ''length'' then None
      else (case map_of (props obj) (target m) of
              None \<Rightarrow> None
            | Some cur \<Rightarrow>
                Some (case m of
                        Assign key x \<Rightarrow>
                          (if writable cur
                           then (True, obj\<lparr>props := map (\<lambda>(k, d). if k = key then (k, d\<lparr>pvalue := x\<rparr>)
                                                                 else (k, d)) (props obj)\<rparr>)
                           else (False, obj))
                      | Delete key \<Rightarrow>
                          (if configurable cur
                           then (True, obj\<lparr>props := filter (\<lambda>(k, d). k \<noteq> key) (props obj)\<rparr>)
                           else (False, obj))
                      | Define key new \<Rightarrow>
                          (if configurable cur \<or>
                              (writable cur \<and> \<not> configurable new \<and> enumerable new = enumerable cur)
                           then (True, obj\<lparr>props := map (\<lambda>(k, d). if k = key then (k, new) else (k, d))
                                                         (props obj)\<rparr>)
                           else (new = cur, obj)))))"

section \<open>States used to state the properties\<close>

text \<open>
  The state in which the code of a factory starts when \<^verbatim>\<open>materialize\<close> finds no entry
  under \<open>key\<close>: the deferred-lookup guard has been created and stored in the cache, and
  the invocation is counted.
\<close>

definition entered :: "state \<Rightarrow> guarding \<Rightarrow> state" where
  "entered st key =
     st\<lparr>funcs := funcs st @ [Thunk key],
        cache := (cache st)(key \<mapsto> RGuard (length (funcs st))),
        calls := (calls st)(key := calls st key + 1)\<rparr>"

text \<open>
  A later state: the guards created so far are still there, and every entry the cache held
  is unchanged, as is the invocation count of its key.
\<close>

definition extends :: "state \<Rightarrow> state \<Rightarrow> bool" where
  "extends st st' \<longleftrightarrow>
     (\<exists>added. funcs st' = funcs st @ added) \<and>
     (\<forall>k r. cache st k = Some r \<longrightarrow> cache st' k = Some r \<and> calls st' k = calls st k)"

text \<open>
  A state is closed when the references it holds exist: every cache entry is a guard
  created so far (or a string), every deferred-lookup guard has an entry under its key, and
  the body of every other guard calls only guards created so far (its result does not depend
  on what a call of any other reference would return).
\<close>

definition bound :: "nat \<Rightarrow> resolved \<Rightarrow> bool" where
  "bound n r = (case r of RGuard g \<Rightarrow> g < n | RString s \<Rightarrow> True)"

definition closure_within :: "state \<Rightarrow> closure \<Rightarrow> bool" where
  "closure_within st c =
     (case c of
        Thunk key \<Rightarrow> cache st key \<noteq> None
      | Fn params body \<Rightarrow>
          (\<forall>c1 c2. (\<forall>r. bound (length (funcs st)) r \<longrightarrow> c1 r = c2 r) \<longrightarrow> body c1 = body c2))"

definition closed :: "state \<Rightarrow> bool" where
  "closed st \<longleftrightarrow>
     (\<forall>key r. cache st key = Some r \<longrightarrow> bound (length (funcs st)) r) \<and>
     list_all (closure_within st) (funcs st)"

text \<open>
  The factories of the examples: factory 0 resolves itself, calls the guard it gets on the
  number 42 and returns a string guard; factory 1 throws; factory 3 returns a string guard;
  every other factory returns a number guard.
\<close>

definition example_env :: "fid \<Rightarrow> script" where
  "example_env f =
     (if f = 0 then Resolve (Factory 0) (\<lambda>t. Invoke t (VNumber 42) (\<lambda>d. aString Return))
      else if f = 1 then Throw ''boom''
      else if f = 3 then aString Return
      else aNumber Return)"

definition after_example :: state where
  "after_example =
     \<lparr>cache = [Factory 0 \<mapsto> RGuard 1],
      funcs = [Thunk (Factory 0), Fn 1 aString_guard],
      calls = (\<lambda>k. 0)(Factory 0 := 1),
      trace = [(RGuard 0, VNumber 42, [])]\<rparr>"

text \<open>The state after \<^verbatim>\<open>anArray(f)\<close> for the factory 2 of the examples.\<close>

definition array_example :: state where
  "array_example =
     \<lparr>cache = [Factory 2 \<mapsto> RGuard 1],
      funcs = [Thunk (Factory 2), Fn 1 aNumber_guard, Fn 1 (anArray_guard (Some (RGuard 1)))],
      calls = (\<lambda>k. 0)(Factory 2 := 1),
      trace = []\<rparr>"

text \<open>The state after \<^verbatim>\<open>all([f2, f3])\<close> for the factories 2 and 3 of the examples.\<close>

definition all_example :: state where
  "all_example =
     \<lparr>cache = [Factory 2 \<mapsto> RGuard 1, Factory 3 \<mapsto> RGuard 3],
      funcs = [Thunk (Factory 2), Fn 1 aNumber_guard, Thunk (Factory 3), Fn 1 aString_guard,
               Fn 1 (all2_guard (RGuard 1) (RGuard 3))],
      calls = (\<lambda>k. 0)(Factory 2 := 1, Factory 3 := 1),
      trace = []\<rparr>"

text \<open>The state after \<^verbatim>\<open>any({aNumber: f2, aString: f3})\<close> for the same factories.\<close>

definition any_example :: state where
  "any_example =
     \<lparr>cache = [Factory 2 \<mapsto> RGuard 1, Factory 3 \<mapsto> RGuard 3],
      funcs = [Thunk (Factory 2), Fn 1 aNumber_guard, Thunk (Factory 3), Fn 1 aString_guard,
               Fn 1 (any2_guard ''<number> or <string>'' (RGuard 1) (RGuard 3))],
      calls = (\<lambda>k. 0)(Factory 2 := 1, Factory 3 := 1),
      trace = []\<rparr>"

text \<open>
  The state after \<^verbatim>\<open>any({constructor: f2, aString: f3})\<close> for the same factories.
\<close>

definition any_constructor_example :: state where
  "any_constructor_example =
     \<lparr>cache = [Factory 2 \<mapsto> RGuard 1, Factory 3 \<mapsto> RGuard 3],
      funcs = [Thunk (Factory 2), Fn 1 aNumber_guard, Thunk (Factory 3), Fn 1 aString_guard,
               Fn 1 (any2_guard ''<function Object() { [native code] }> or <string>''
                       (RGuard 1) (RGuard 3))],
      calls = (\<lambda>k. 0)(Factory 2 := 1, Factory 3 := 1),
      trace = []\<rparr>"




text \<open>
  A structural value is a record or an array. The heaps the casts produce keep the mark on
  frozen objects only: \<^verbatim>\<open>brand\<close> is the one place that writes the property
  \<^verbatim>\<open>Guarded\<close>, and it freezes the object it has written it on.
\<close>

definition structural :: "jsobject \<Rightarrow> bool" where
  "structural obj =
     (okind obj = ArrayObject \<or> (okind obj = OrdinaryObject \<and> proto obj = Some Object_prototype))"

definition marked :: "jsobject \<Rightarrow> bool" where
  "marked obj = (map_of (props obj) Guarded \<noteq> None)"

definition marked_frozen :: "heap \<Rightarrow> bool" where
  "marked_frozen h = list_all (\<lambda>obj. marked obj \<longrightarrow> isFrozen obj) h"

text \<open>The property \<^verbatim>\<open>brand\<close> leaves under \<^verbatim>\<open>Guarded\<close>, and a frozen descriptor.\<close>

definition mark_of :: "guarding \<Rightarrow> pkey \<times> pdesc" where
  "mark_of guarding =
     (Guarded, \<lparr>pvalue = Mark guarding, writable = False, enumerable = False, configurable = False\<rparr>)"

definition frozen_desc :: "pkey \<times> pdesc \<Rightarrow> pkey \<times> pdesc" where
  "frozen_desc p = (fst p, (snd p)\<lparr>writable := False, configurable := False\<rparr>)"

text \<open>An enumerable data property, writable and configurable or frozen.\<close>

definition open_property :: "string \<Rightarrow> val \<Rightarrow> pkey \<times> pdesc" where
  "open_property key x =
     (Name key, \<lparr>pvalue = Data x, writable = True, enumerable = True, configurable = True\<rparr>)"

definition frozen_property :: "string \<Rightarrow> val \<Rightarrow> pkey \<times> pdesc" where
  "frozen_property key x =
     (Name key, \<lparr>pvalue = Data x, writable = False, enumerable = True, configurable = False\<rparr>)"

text \<open>The length of an array, before and after the array is frozen.\<close>

definition length_property :: "bool \<Rightarrow> 54 word \<Rightarrow> pkey \<times> pdesc" where
  "length_property w n =
     (Name ''length'', \<lparr>pvalue = Data (VNumber n), writable = w, enumerable = False,
                         configurable = False\<rparr>)"

text \<open>
  For the examples: a state whose one guard is that of \<^verbatim>\<open>anObject()\<close>, and a heap with
  \<^verbatim>\<open>Object.prototype\<close> at 0, an extensible record at 1 and a frozen record at 2; the
  conversion of each of them to a string gives the standard text.
\<close>

definition cast_state :: state where
  "cast_state = init\<lparr>funcs := [Fn 1 object_guard]\<rparr>"

definition plain_conv :: "heap \<Rightarrow> nat \<Rightarrow> exn + string" where
  "plain_conv h a = Inr ''[object Object]''"

definition cast_heap :: heap where
  "cast_heap =
     [\<lparr>okind = OrdinaryObject, proto = None, extensible = True, props = []\<rparr>,
      \<lparr>okind = OrdinaryObject, proto = Some Object_prototype, extensible = True,
       props = [open_property ''name'' (VString ''Alice'')]\<rparr>,
      \<lparr>okind = OrdinaryObject, proto = Some Object_prototype, extensible = False,
       props = [frozen_property ''name'' (VString ''Bob'')]\<rparr>]"

text \<open>
  The record at 1 once branded for the guard 0 and frozen, and the branded, frozen copy of the
  record at 2.
\<close>

definition alice_branded :: jsobject where
  "alice_branded =
     \<lparr>okind = OrdinaryObject, proto = Some Object_prototype, extensible = False,
      props = [frozen_property ''name'' (VString ''Alice''), mark_of (Guard 0)]\<rparr>"

definition bob_copy :: jsobject where
  "bob_copy =
     \<lparr>okind = OrdinaryObject, proto = Some Object_prototype, extensible = False,
      props = [frozen_property ''name'' (VString ''Bob''), mark_of (Guard 0)]\<rparr>"

text \<open>
  For the cast on an array: a state with the guard of \<^verbatim>\<open>aNumber()\<close> at 0 and the guard
  \<open>G\<close> of \<^verbatim>\<open>anArray(aNumber())\<close> at 1, and a heap with \<^verbatim>\<open>Object.prototype\<close>
  at 0, \<^verbatim>\<open>Array.prototype\<close> (an array of length 0; its methods are left out) at 1,
  and the array \<^verbatim>\<open>[1, 2]\<close> at 2. The second heap is the first after
  \<^verbatim>\<open>as(G)(Array.prototype)\<close>.
\<close>

definition array_cast_state :: state where
  "array_cast_state = init\<lparr>funcs := [Fn 1 aNumber_guard, Fn 1 (anArray_guard (Some (RGuard 0)))]\<rparr>"

definition pair_array :: jsobject where
  "pair_array =
     \<lparr>okind = ArrayObject, proto = Some 1, extensible = True,
      props = [open_property ''0'' (VNumber 1), open_property ''1'' (VNumber 2),
               length_property True 2]\<rparr>"

definition array_heap :: heap where
  "array_heap =
     [\<lparr>okind = OrdinaryObject, proto = None, extensible = True, props = []\<rparr>,
      \<lparr>okind = ArrayObject, proto = Some Object_prototype, extensible = True,
       props = [length_property True 0]\<rparr>,
      pair_array]"

definition array_heap_branded :: heap where
  "array_heap_branded =
     [\<lparr>okind = OrdinaryObject, proto = None, extensible = True, props = []\<rparr>,
      \<lparr>okind = ArrayObject, proto = Some Object_prototype, extensible = False,
       props = [length_property False 0, mark_of (Guard 1)]\<rparr>,
      pair_array]"

section \<open>What the specification says, for comparison\<close>

text \<open>
  Resolving every source of a list at construction time, in the caller's order: the guards
  come out in the order of their sources, each source resolved in the state the earlier
  resolutions left.
\<close>

fun resolve_each ::
  "nat \<Rightarrow> (fid \<Rightarrow> script) \<Rightarrow> guarding list \<Rightarrow> state \<Rightarrow> resolved list outcome" where
  "resolve_each n env [] st = Some (Inr [], st)"
| "resolve_each n env (source # sources) st =
     (case resolve n env source st of
        None \<Rightarrow> None
      | Some (Inl e, st1) \<Rightarrow> Some (Inl e, st1)
      | Some (Inr r, st1) \<Rightarrow>
          (case resolve_each n env sources st1 of
             None \<Rightarrow> None
           | Some (Inl e, st2) \<Rightarrow> Some (Inl e, st2)
           | Some (Inr rs, st2) \<Rightarrow> Some (Inr (r # rs), st2)))"

text \<open>
  The first non-empty diagnostic of a sequence of outcomes taken in order, empty when every
  outcome is the empty diagnostic; an outcome that is no diagnostic (a throw, no return) ends
  the sequence as a failure does.
\<close>

fun first_failure :: "diag list \<Rightarrow> diag" where
  "first_failure [] = ok []"
| "first_failure (d # ds) = (if d = ok [] then first_failure ds else d)"






section \<open>Properties of the resolver\<close>

lemma extends_refl: "extends st st"
  by (simp add: extends_def)

lemma extends_trans: "extends a b \<Longrightarrow> extends b c \<Longrightarrow> extends a c"
  unfolding extends_def by (metis append.assoc)

lemma extends_funcs: "extends st (st\<lparr>funcs := funcs st @ cs\<rparr>)"
  by (simp add: extends_def)

lemma extends_trace: "extends st (st\<lparr>trace := t\<rparr>)"
  by (simp add: extends_def)

lemma extends_cache_absent:
  "extends base a \<Longrightarrow> cache base key = None \<Longrightarrow> extends base (a\<lparr>cache := (cache a)(key \<mapsto> g)\<rparr>)"
  by (auto simp: extends_def)

lemma extends_calls_absent:
  "extends base a \<Longrightarrow> cache base key = None \<Longrightarrow> extends base (a\<lparr>calls := (calls a)(key := c)\<rparr>)"
  by (auto simp: extends_def)

lemma extends_nth:
  "extends a b \<Longrightarrow> g < length (funcs a) \<Longrightarrow> g < length (funcs b) \<and> funcs b ! g = funcs a ! g"
  by (auto simp: extends_def nth_append)

lemma extends_cache: "extends a b \<Longrightarrow> cache a k = Some r \<Longrightarrow> cache b k = Some r"
  by (simp add: extends_def)

lemma extends_calls: "extends a b \<Longrightarrow> cache a k = Some r \<Longrightarrow> calls b k = calls a k"
  by (simp add: extends_def)

text \<open>Whatever runs the code of a factory, resolution only adds to the state.\<close>

lemma invoke_with_extends:
  assumes runner: "\<And>s st out st'. runner s st = Some (out, st') \<Longrightarrow> extends st st'"
    and base: "extends base st" and absent: "cache base key = None"
    and res: "invoke_with runner app env key st = Some (out, st')"
  shows "extends base st'"
proof -
  let ?st = "st\<lparr>calls := (calls st)(key := calls st key + 1)\<rparr>"
  have a: "extends base ?st" using base absent by (rule extends_calls_absent)
  show ?thesis
  proof (cases key)
    case (Factory f)
    with res obtain o' where "runner (env f) ?st = Some (o', st')"
      by (auto simp: invoke_with_def Let_def split: option.splits sum.splits prod.splits)
    then show ?thesis using runner a extends_trans by blast
  next
    case (Guard g)
    with res have "st' = ?st"
      by (auto simp: invoke_with_def Let_def split: option.splits sum.splits prod.splits)
    then show ?thesis using a by simp
  qed
qed

lemma materialize_with_extends:
  assumes ext: "\<And>base st out st'. extends base st \<Longrightarrow> cache base key = None \<Longrightarrow>
                  ivk key st = Some (out, st') \<Longrightarrow> extends base st'"
    and res: "materialize_with ivk key st = Some (out, st')"
  shows "extends st st'"
proof (cases "cache st key")
  case (Some cached)
  with res have "st' = st" by (simp add: materialize_with_def)
  then show ?thesis by (simp add: extends_refl)
next
  case None
  let ?st2 = "st\<lparr>funcs := funcs st @ [Thunk key],
                  cache := (cache st)(key \<mapsto> RGuard (length (funcs st)))\<rparr>"
  have b: "extends st ?st2" using None by (auto simp: extends_def)
  from res None obtain o3 st3 where i3: "ivk key ?st2 = Some (o3, st3)"
    and st': "st' = st3 \<or> (\<exists>g. st' = st3\<lparr>cache := (cache st3)(key \<mapsto> g)\<rparr>)"
    by (auto simp: materialize_with_def Let_def split: option.splits sum.splits prod.splits)
  have "extends st st3" using b None i3 by (rule ext)
  then show ?thesis using st' None extends_cache_absent by blast
qed

lemma resolve_with_extends:
  assumes ext: "\<And>base st out st'. extends base st \<Longrightarrow> cache base source = None \<Longrightarrow>
                  ivk source st = Some (out, st') \<Longrightarrow> extends base st'"
    and res: "resolve_with ivk source st = Some (out, st')"
  shows "extends st st'"
proof (cases "\<exists>g. source = Guard g \<and> declared st source > 0")
  case True
  with res have "st' = st" by (auto simp: resolve_with_def)
  then show ?thesis by (simp add: extends_refl)
next
  case False
  with res have "materialize_with ivk source st = Some (out, st')"
    by (auto simp: resolve_with_def split: guarding.splits if_splits)
  with ext show ?thesis by (rule materialize_with_extends)
qed

lemma run_body_extends:
  assumes ext: "\<And>key base st out st'. extends base st \<Longrightarrow> cache base key = None \<Longrightarrow>
                  ivk key st = Some (out, st') \<Longrightarrow> extends base st'"
  shows "run_body ivk caller s st = Some (out, st') \<Longrightarrow> extends st st'"
proof (induction s arbitrary: st)
  case (Return g)
  then show ?case by (simp add: extends_refl)
next
  case (Throw m)
  then show ?case by (simp add: extends_refl)
next
  case (Resolve source k)
  show ?case
  proof (cases "resolve_with ivk source st")
    case None
    with Resolve.prems show ?thesis by simp
  next
    case (Some p)
    obtain o1 st1 where p: "p = (o1, st1)" by (cases p)
    have e1: "extends st st1"
      using ext Some [unfolded p] by (rule resolve_with_extends)
    show ?thesis
    proof (cases o1)
      case (Inl e)
      with Resolve.prems Some p have "st' = st1" by simp
      with e1 show ?thesis by simp
    next
      case (Inr r)
      with Resolve.prems Some p have "run_body ivk caller (k r) st1 = Some (out, st')"
        by simp
      then have "extends st1 st'" by (rule Resolve.IH [OF rangeI])
      with e1 show ?thesis by (rule extends_trans)
    qed
  qed
next
  case (Create c k)
  then have "extends (st\<lparr>funcs := funcs st @ [c]\<rparr>) st'"
    using Create.IH [OF rangeI] by simp
  with extends_funcs show ?case by (rule extends_trans)
next
  case (Invoke r v k)
  show ?case
  proof (cases "caller st r v")
    case None
    with Invoke.prems show ?thesis by simp
  next
    case (Some d)
    show ?thesis
    proof (cases d)
      case (Inl e)
      with Invoke.prems Some have "st' = st" by simp
      then show ?thesis by (simp add: extends_refl)
    next
      case (Inr x)
      with Invoke.prems Some
      have "run_body ivk caller (k x) (st\<lparr>trace := trace st @ [(r, v, x)]\<rparr>) = Some (out, st')"
        by simp
      then have "extends (st\<lparr>trace := trace st @ [(r, v, x)]\<rparr>) st'"
        by (rule Invoke.IH [OF rangeI])
      with extends_trace show ?thesis by (rule extends_trans)
    qed
  qed
qed

lemma invoke_extends:
  "extends base st \<Longrightarrow> cache base key = None \<Longrightarrow> invoke n env key st = Some (out, st') \<Longrightarrow>
   extends base st'"
proof (induction n arbitrary: base key st out st')
  case 0
  then show ?case by simp
next
  case (Suc n)
  have "\<And>s st out st'. run_body (invoke n env) (call_at n) s st = Some (out, st') \<Longrightarrow> extends st st'"
    using Suc.IH by (rule run_body_extends)
  then show ?case using Suc.prems by (simp only: invoke.simps) (rule invoke_with_extends)
qed

lemma run_extends: "run n env s st = Some (out, st') \<Longrightarrow> extends st st'"
  unfolding run_def using invoke_extends by (rule run_body_extends)

lemma resolve_extends: "resolve n env source st = Some (out, st') \<Longrightarrow> extends st st'"
  unfolding resolve_def using invoke_extends by (rule resolve_with_extends)

text \<open>One equation per kind of step.\<close>

lemma run_Return: "run n env (Return g) st = Some (Inr g, st)"
  by (simp add: run_def)

lemma run_Throw: "run n env (Throw m) st = Some (Inl (Thrown m), st)"
  by (simp add: run_def)

lemma run_Create:
  "run n env (Create c k) st =
     run n env (k (length (funcs st))) (st\<lparr>funcs := funcs st @ [c]\<rparr>)"
  by (simp add: run_def)

lemma run_Resolve:
  "run n env (Resolve source k) st =
     (case resolve n env source st of
        None \<Rightarrow> None
      | Some (Inl e, st') \<Rightarrow> Some (Inl e, st')
      | Some (Inr r, st') \<Rightarrow> run n env (k r) st')"
  by (simp add: run_def resolve_def split: option.splits sum.splits prod.splits)

lemma run_Invoke:
  "run n env (Invoke r v k) st =
     (case call_at n st r v of
        None \<Rightarrow> None
      | Some (Inl e) \<Rightarrow> Some (Inl e, st)
      | Some (Inr d) \<Rightarrow> run n env (k d) (st\<lparr>trace := trace st @ [(r, v, d)]\<rparr>))"
  by (simp add: run_def split: option.splits sum.splits)

lemmas run_step = run_Return run_Throw run_Create run_Resolve run_Invoke

lemma resolve_Factory_cached:
  "cache st (Factory f) = Some r \<Longrightarrow> resolve n env (Factory f) st = Some (Inr r, st)"
  by (simp add: resolve_def resolve_with_def materialize_with_def)

lemma resolve_Factory_absent:
  "cache st (Factory f) = None \<Longrightarrow>
   resolve (Suc n) env (Factory f) st =
     (case run n env (env f) (entered st (Factory f)) of
        None \<Rightarrow> None
      | Some (Inl e, st3) \<Rightarrow> Some (Inl e, st3)
      | Some (Inr g, st3) \<Rightarrow>
          Some (Inr (RGuard g), st3\<lparr>cache := (cache st3)(Factory f \<mapsto> RGuard g)\<rparr>))"
  by (simp add: resolve_def resolve_with_def materialize_with_def run_def invoke_with_def
        entered_def Let_def split: option.splits sum.splits prod.splits)

lemma resolve_Factory_no_fuel:
  "cache st (Factory f) = None \<Longrightarrow> resolve 0 env (Factory f) st = None"
  by (simp add: resolve_def resolve_with_def materialize_with_def)

lemma apply_guard_Thunk:
  "g < length (funcs s) \<Longrightarrow> funcs s ! g = Thunk key \<Longrightarrow>
   apply_guard (Suc m) s g v =
     (case cache s key of
        None \<Rightarrow> ok []
      | Some (RGuard g') \<Rightarrow> if g' = g then ok [] else apply_guard m s g' v
      | Some (RString x) \<Rightarrow> if x = [] then ok [] else Some (Inl NotAFunction))"
  by (simp add: thunk_body_def truthy_def call_with_def split: option.splits resolved.splits)

lemma apply_guard_Fn:
  "g < length (funcs s) \<Longrightarrow> funcs s ! g = Fn params body \<Longrightarrow>
   apply_guard (Suc m) s g v = body (call_at m s) v"
  by (simp add: call_at_def)

declare apply_guard.simps(2) [simp del]

lemma entered_thunk:
  "cache (entered st key) key = Some (RGuard (length (funcs st)))"
  "length (funcs st) < length (funcs (entered st key))"
  "funcs (entered st key) ! length (funcs st) = Thunk key"
  by (simp_all add: entered_def)

lemma example_env_simps:
  "example_env 0 = Resolve (Factory 0) (\<lambda>t. Invoke t (VNumber 42) (\<lambda>d. aString Return))"
  "example_env (Suc 0) = Throw ''boom''"
  "example_env 2 = aNumber Return"
  "example_env 3 = aString Return"
  by (simp_all add: example_env_def)

text \<open>In a closed state, the guards created so far return the same in every later state.\<close>

lemma apply_guard_extends:
  assumes cl: "closed st" and ext: "extends st st'"
  shows "g < length (funcs st) \<Longrightarrow> apply_guard n st' g v = apply_guard n st g v"
proof (induction n arbitrary: g v)
  case 0
  then show ?case by simp
next
  case (Suc n)
  let ?L = "length (funcs st)"
  have calls: "call_with (apply_guard n st') r = call_with (apply_guard n st) r" if "bound ?L r" for r
    using that Suc.IH by (cases r) (auto simp: bound_def call_with_def fun_eq_iff)
  have same: "g < length (funcs st')" "funcs st' ! g = funcs st ! g"
    using extends_nth [OF ext Suc.prems] by simp_all
  from cl Suc.prems have within: "closure_within st (funcs st ! g)"
    by (simp add: closed_def list_all_length)
  show ?case
  proof (cases "funcs st ! g")
    case (Thunk key)
    with within obtain r where r: "cache st key = Some r"
      by (auto simp: closure_within_def)
    with cl have b: "bound ?L r" by (auto simp: closed_def)
    have r': "cache st' key = Some r" using ext r by (rule extends_cache)
    have "thunk_body (call_with (apply_guard n st')) st' g key v =
          thunk_body (call_with (apply_guard n st)) st g key v"
      using r r' calls [OF b] by (simp add: thunk_body_def)
    then show ?thesis using Thunk same Suc.prems by (simp add: apply_guard.simps(2))
  next
    case (Fn params body)
    with within calls have "body (call_with (apply_guard n st')) = body (call_with (apply_guard n st))"
      by (simp add: closure_within_def)
    then show ?thesis using Fn same Suc.prems by (simp add: apply_guard.simps(2))
  qed
qed

section \<open>Claims on the resolver\<close>

text \<open>
  C1. For a factory with no cache entry, \<^verbatim>\<open>resolve\<close> runs the code of the factory in
  the state \<open>entered st (Factory f)\<close>, in which the deferred-lookup guard is already
  in the cache under the factory; the guard stays where it was created whatever the factory
  does. Called with a value in any state, the deferred-lookup guard reads the entry of its
  factory in the cache of that state: it delegates to the entry when this is another guard,
  and returns the empty diagnostic when the entry is the deferred-lookup guard itself or is
  absent.
\<close>

theorem deferred_guard_installed_before_factory:
  assumes absent: "cache st (Factory f) = None"
  shows "let thunk = length (funcs st); st2 = entered st (Factory f) in
           cache st2 (Factory f) = Some (RGuard thunk) \<and>
           funcs st2 ! thunk = Thunk (Factory f) \<and>
           resolve (Suc n) env (Factory f) st =
             (case run n env (env f) st2 of
                None \<Rightarrow> None
              | Some (Inl e, st3) \<Rightarrow> Some (Inl e, st3)
              | Some (Inr g, st3) \<Rightarrow>
                  Some (Inr (RGuard g), st3\<lparr>cache := (cache st3)(Factory f \<mapsto> RGuard g)\<rparr>)) \<and>
           (\<forall>out st3. run n env (env f) st2 = Some (out, st3) \<longrightarrow>
              thunk < length (funcs st3) \<and> funcs st3 ! thunk = Thunk (Factory f)) \<and>
           (\<forall>s m v. thunk < length (funcs s) \<longrightarrow> funcs s ! thunk = Thunk (Factory f) \<longrightarrow>
              apply_guard (Suc m) s thunk v =
                (case cache s (Factory f) of
                   None \<Rightarrow> ok []
                 | Some (RGuard g) \<Rightarrow> if g = thunk then ok [] else apply_guard m s g v
                 | Some (RString x) \<Rightarrow> if x = [] then ok [] else Some (Inl NotAFunction)))"
proof -
  let ?t = "length (funcs st)" and ?st2 = "entered st (Factory f)"
  have later: "?t < length (funcs st3) \<and> funcs st3 ! ?t = Thunk (Factory f)"
    if "run n env (env f) ?st2 = Some (out, st3)" for out st3
  proof -
    from that have "extends ?st2 st3" by (rule run_extends)
    then show ?thesis using extends_nth entered_thunk(2,3) by metis
  qed
  show ?thesis
    unfolding Let_def
    using entered_thunk(1,3) resolve_Factory_absent [OF absent] later apply_guard_Thunk
    by blast
qed

theorem deferred_guard_installed_before_factory_witness:
  "cache init (Factory 0) = None \<and>
   resolve (Suc (Suc 0)) example_env (Factory 0) init =
     Some (Inr (RGuard 1), after_example) \<and>
   0 < length (funcs (entered init (Factory 0))) \<and>
   funcs (entered init (Factory 0)) ! 0 = Thunk (Factory 0) \<and>
   apply_guard (Suc 0) (entered init (Factory 0)) 0 (VNumber 42) = ok [] \<and>
   0 < length (funcs after_example) \<and>
   funcs after_example ! 0 = Thunk (Factory 0) \<and>
   apply_guard (Suc (Suc 0)) after_example 0 (VNumber 42) =
     apply_guard (Suc 0) after_example 1 (VNumber 42)"
proof -
  have h: "cache init (Factory 0) = None" by (simp add: init_def)
  have l: "length (funcs init) = 0" by (simp add: init_def)
  have r: "resolve (Suc (Suc 0)) example_env (Factory 0) init =
             Some (Inr (RGuard 1), after_example)"
    by (simp add: resolve_Factory_absent resolve_Factory_cached init_def entered_def
          example_env_simps run_step aString_def call_at_def call_with_def apply_guard_Thunk
          ok_def after_example_def)
  have d: "0 < length (funcs (entered init (Factory 0))) \<and>
           funcs (entered init (Factory 0)) ! 0 = Thunk (Factory 0) \<and>
           cache (entered init (Factory 0)) (Factory 0) = Some (RGuard 0)"
    by (simp add: entered_def init_def)
  have a: "0 < length (funcs after_example) \<and> funcs after_example ! 0 = Thunk (Factory 0) \<and>
           cache after_example (Factory 0) = Some (RGuard 1)"
    by (simp add: after_example_def)
  from deferred_guard_installed_before_factory [OF h, of "Suc 0" example_env] l
  have t: "\<forall>s m v. 0 < length (funcs s) \<longrightarrow> funcs s ! 0 = Thunk (Factory 0) \<longrightarrow>
              apply_guard (Suc m) s 0 v =
                (case cache s (Factory 0) of
                   None \<Rightarrow> ok []
                 | Some (RGuard g) \<Rightarrow> if g = 0 then ok [] else apply_guard m s g v
                 | Some (RString x) \<Rightarrow> if x = [] then ok [] else Some (Inl NotAFunction))"
    unfolding Let_def l by blast
  have t1: "apply_guard (Suc 0) (entered init (Factory 0)) 0 (VNumber 42) = ok []"
    using t d by simp
  have t2: "apply_guard (Suc (Suc 0)) after_example 0 (VNumber 42) =
            apply_guard (Suc 0) after_example 1 (VNumber 42)"
    using t a by simp
  from h r d a t1 t2 show ?thesis by blast
qed

text \<open>
  C2. When a resolution of the factory \<open>f\<close> returns a guard, a second resolution of
  \<open>f\<close>, at once or after any code that runs to its end, returns the same reference
  and leaves the state as it is, so that the code of \<open>f\<close> is not run again; over the
  first resolution the code of \<open>f\<close> was run once when the cache had no entry for
  \<open>f\<close>, and not at all when it had one.
\<close>

theorem resolve_memoizes_factory:
  assumes first: "resolve n env (Factory f) st = Some (Inr g, st1)"
  shows "(\<forall>m. resolve m env (Factory f) st1 = Some (Inr g, st1)) \<and>
         (\<forall>k s out st2 m. run k env s st1 = Some (out, st2) \<longrightarrow>
            resolve m env (Factory f) st2 = Some (Inr g, st2) \<and>
            calls st2 (Factory f) = calls st1 (Factory f)) \<and>
         calls st1 (Factory f) =
           (if cache st (Factory f) = None then calls st (Factory f) + 1 else calls st (Factory f))"
proof -
  have later: "resolve m env (Factory f) st2 = Some (Inr g, st2) \<and>
               calls st2 (Factory f) = calls st1 (Factory f)"
    if c: "cache st1 (Factory f) = Some g" and r: "run k env s st1 = Some (out, st2)"
    for k s out st2 m
  proof -
    from r have e: "extends st1 st2" by (rule run_extends)
    from e c have "cache st2 (Factory f) = Some g" by (rule extends_cache)
    moreover from e c have "calls st2 (Factory f) = calls st1 (Factory f)" by (rule extends_calls)
    ultimately show ?thesis by (simp add: resolve_Factory_cached)
  qed
  show ?thesis
  proof (cases "cache st (Factory f)")
  case (Some r)
  with first have "g = r" "st1 = st" by (simp_all add: resolve_Factory_cached)
  with Some later show ?thesis by (simp add: resolve_Factory_cached)
next
  case None
  let ?st2 = "entered st (Factory f)"
  from first None obtain n' where n: "n = Suc n'"
    by (cases n) (simp_all add: resolve_Factory_no_fuel)
  from first None obtain g' st3 where r: "run n' env (env f) ?st2 = Some (Inr g', st3)"
    and g: "g = RGuard g'" and st1: "st1 = st3\<lparr>cache := (cache st3)(Factory f \<mapsto> RGuard g')\<rparr>"
    unfolding n by (auto simp: resolve_Factory_absent split: option.splits sum.splits prod.splits)
  from r have "extends ?st2 st3" by (rule run_extends)
  then have "calls st3 (Factory f) = calls ?st2 (Factory f)"
    using entered_thunk(1) by (rule extends_calls)
  then have c: "calls st1 (Factory f) = calls st (Factory f) + 1"
    by (simp add: st1 entered_def)
  have e: "cache st1 (Factory f) = Some g" by (simp add: st1 g)
  then have "\<forall>m. resolve m env (Factory f) st1 = Some (Inr g, st1)"
    by (simp add: resolve_Factory_cached)
  with c None later [OF e] show ?thesis by simp
qed
qed

theorem resolve_memoizes_factory_witness:
  "resolve (Suc (Suc 0)) example_env (Factory 0) init =
     Some (Inr (RGuard 1), after_example) \<and>
   resolve 0 example_env (Factory 0) after_example = Some (Inr (RGuard 1), after_example) \<and>
   calls after_example (Factory 0) = 1 \<and>
   run 0 example_env (aNumber Return) after_example =
     Some (Inr 2, after_example\<lparr>funcs := funcs after_example @ [Fn 1 aNumber_guard]\<rparr>) \<and>
   resolve 0 example_env (Factory 0)
     (after_example\<lparr>funcs := funcs after_example @ [Fn 1 aNumber_guard]\<rparr>) =
     Some (Inr (RGuard 1), after_example\<lparr>funcs := funcs after_example @ [Fn 1 aNumber_guard]\<rparr>)"
proof -
  have l: "run 0 example_env (aNumber Return) after_example =
     Some (Inr 2, after_example\<lparr>funcs := funcs after_example @ [Fn 1 aNumber_guard]\<rparr>)"
    by (simp add: aNumber_def run_step after_example_def)
  have h: "cache init (Factory 0) = None" by (simp add: init_def)
  have r: "resolve (Suc (Suc 0)) example_env (Factory 0) init =
             Some (Inr (RGuard 1), after_example)"
    by (simp add: resolve_Factory_absent resolve_Factory_cached init_def entered_def
          example_env_simps run_step aString_def call_at_def call_with_def apply_guard_Thunk
          ok_def after_example_def)
  note T = resolve_memoizes_factory [OF r]
  from T h
  have a: "resolve 0 example_env (Factory 0) after_example = Some (Inr (RGuard 1), after_example) \<and>
        calls after_example (Factory 0) = calls init (Factory 0) + 1"
    by simp
  from T [THEN conjunct2, THEN conjunct1, THEN spec, THEN spec, THEN spec, THEN spec, THEN spec,
      THEN mp, OF l, THEN conjunct1]
  have b: "resolve 0 example_env (Factory 0)
     (after_example\<lparr>funcs := funcs after_example @ [Fn 1 aNumber_guard]\<rparr>) =
     Some (Inr (RGuard 1), after_example\<lparr>funcs := funcs after_example @ [Fn 1 aNumber_guard]\<rparr>)" .
  from a have c: "calls after_example (Factory 0) = 1" by (simp add: init_def)
  from r a c l b show ?thesis by blast
qed

text \<open>
  C8. When the resolution of a factory with no cache entry throws, the exception is the one
  the code of the factory raised, and the cache holds the deferred-lookup guard under the
  factory. From then on, after any code that runs to its end, resolving the factory returns
  the deferred-lookup guard and leaves the state as it is, the invocation count of the
  factory stays what it was, and the deferred-lookup guard returns the empty diagnostic on
  every value.
\<close>

theorem failed_factory_keeps_deferred_guard:
  assumes absent: "cache st (Factory f) = None"
    and throws: "resolve (Suc n) env (Factory f) st = Some (Inl e, st1)"
  shows "let thunk = length (funcs st) in
           run n env (env f) (entered st (Factory f)) = Some (Inl e, st1) \<and>
           cache st1 (Factory f) = Some (RGuard thunk) \<and>
           calls st1 (Factory f) = calls st (Factory f) + 1 \<and>
           (\<forall>m s out st2 k. run m env s st1 = Some (out, st2) \<longrightarrow>
              resolve k env (Factory f) st2 = Some (Inr (RGuard thunk), st2) \<and>
              calls st2 (Factory f) = calls st1 (Factory f) \<and>
              (\<forall>k v. apply_guard (Suc k) st2 thunk v = ok []))"
proof -
  let ?t = "length (funcs st)" and ?st2 = "entered st (Factory f)"
  from throws absent have r: "run n env (env f) ?st2 = Some (Inl e, st1)"
    by (auto simp: resolve_Factory_absent split: option.splits sum.splits prod.splits)
  then have e1: "extends ?st2 st1" by (rule run_extends)
  have c1: "cache st1 (Factory f) = Some (RGuard ?t)"
    using e1 entered_thunk(1) by (rule extends_cache)
  have n1: "calls st1 (Factory f) = calls st (Factory f) + 1"
    using extends_calls [OF e1 entered_thunk(1)] by (simp add: entered_def)
  have later: "resolve k env (Factory f) st2 = Some (Inr (RGuard ?t), st2) \<and>
               calls st2 (Factory f) = calls st1 (Factory f) \<and>
               (\<forall>k v. apply_guard (Suc k) st2 ?t v = ok [])"
    if "run m env s st1 = Some (out, st2)" for m s out st2 k
  proof -
    from that have e2: "extends st1 st2" by (rule run_extends)
    have c2: "cache st2 (Factory f) = Some (RGuard ?t)" using e2 c1 by (rule extends_cache)
    have "extends ?st2 st2" using e1 e2 by (rule extends_trans)
    then have t2: "?t < length (funcs st2)" "funcs st2 ! ?t = Thunk (Factory f)"
      using extends_nth entered_thunk(2,3) by metis+
    have "apply_guard (Suc k) st2 ?t v = ok []" for k v
      using apply_guard_Thunk [OF t2, of k v] c2 by simp
    then show ?thesis
      using c2 extends_calls [OF e2 c1] by (simp add: resolve_Factory_cached)
  qed
  show ?thesis unfolding Let_def using r c1 n1 later by blast
qed

theorem failed_factory_keeps_deferred_guard_witness:
  "cache init (Factory 1) = None \<and>
   resolve (Suc 0) example_env (Factory 1) init =
     Some (Inl (Thrown ''boom''), entered init (Factory 1)) \<and>
   run (Suc 0) example_env (Return 0) (entered init (Factory 1)) =
     Some (Inr 0, entered init (Factory 1)) \<and>
   resolve (Suc 0) example_env (Factory 1) (entered init (Factory 1)) =
     Some (Inr (RGuard 0), entered init (Factory 1)) \<and>
   calls (entered init (Factory 1)) (Factory 1) = 1 \<and>
   apply_guard (Suc 0) (entered init (Factory 1)) 0 (VNumber 7) = ok []"
proof -
  have h1: "cache init (Factory 1) = None" by (simp add: init_def)
  have h2: "resolve (Suc 0) example_env (Factory 1) init =
              Some (Inl (Thrown ''boom''), entered init (Factory 1))"
    by (simp add: resolve_Factory_absent init_def example_env_simps run_step)
  have h3: "run (Suc 0) example_env (Return 0) (entered init (Factory 1)) =
              Some (Inr 0, entered init (Factory 1))"
    by (simp add: run_step)
  have l: "length (funcs init) = 0" "calls init (Factory 1) = 0" by (simp_all add: init_def)
  from failed_factory_keeps_deferred_guard [OF h1 h2] h3 l have
    "resolve (Suc 0) example_env (Factory 1) (entered init (Factory 1)) =
       Some (Inr (RGuard 0), entered init (Factory 1)) \<and>
     calls (entered init (Factory 1)) (Factory 1) = 1 \<and>
     apply_guard (Suc 0) (entered init (Factory 1)) 0 (VNumber 7) = ok []"
    unfolding Let_def by (metis add_0)
  with h1 h2 h3 show ?thesis by blast
qed

text \<open>
  C9, as stated, fails. Factory 0 of the examples calls the deferred-lookup guard it gets for
  itself on the number 42 while it is under construction: the guard, reference 0, returns the
  empty diagnostic there, as the recorded call shows. Once the factory has returned, the same
  reference on the same number returns the diagnostic of the string guard.
\<close>

theorem deferred_guard_result_changes:
  "resolve (Suc (Suc 0)) example_env (Factory 0) init =
     Some (Inr (RGuard 1), after_example) \<and>
   trace after_example = [(RGuard 0, VNumber 42, [])] \<and>
   apply_guard (Suc 0) (entered init (Factory 0)) 0 (VNumber 42) = ok [] \<and>
   apply_guard (Suc (Suc 0)) after_example 0 (VNumber 42) =
     ok ''illegal <number> value, expected <string>'' \<and>
   apply_guard (Suc 0) (entered init (Factory 0)) 0 (VNumber 42) \<noteq>
     apply_guard (Suc (Suc 0)) after_example 0 (VNumber 42)"
proof -
  have r: "resolve (Suc (Suc 0)) example_env (Factory 0) init =
             Some (Inr (RGuard 1), after_example)"
    by (simp add: resolve_Factory_absent resolve_Factory_cached init_def entered_def
          example_env_simps run_step aString_def call_at_def call_with_def apply_guard_Thunk
          ok_def after_example_def)
  have t: "trace after_example = [(RGuard 0, VNumber 42, [])]"
    by (simp add: after_example_def)
  have a: "apply_guard (Suc 0) (entered init (Factory 0)) 0 (VNumber 42) = ok []"
    by (simp add: apply_guard_Thunk entered_def init_def)
  have b: "apply_guard (Suc (Suc 0)) after_example 0 (VNumber 42) =
             ok ''illegal <number> value, expected <string>''"
    by (simp add: apply_guard_Thunk apply_guard_Fn after_example_def aString_guard_def
          illegal_def type_def)
  from r t a b show ?thesis by (simp add: ok_def)
qed

text \<open>
  C9, amended. In a closed state, whatever code runs to its end afterwards (resolutions,
  creations of guards, calls of guards), every guard that existed before returns on every
  value what it returned before. The calls left out are those of a deferred-lookup guard
  from inside the construction of its own factory, which end before the construction does.
\<close>

theorem guard_stable_across_completed_code:
  assumes "closed st" and "run m env s st = Some (out, st')" and "g < length (funcs st)"
  shows "apply_guard n st' g v = apply_guard n st g v"
proof -
  from assms(2) have "extends st st'" by (rule run_extends)
  with assms(1) show ?thesis using assms(3) by (rule apply_guard_extends)
qed

theorem guard_stable_across_completed_code_witness:
  "closed after_example \<and>
   run (Suc 0) example_env (Resolve (Factory 2) (\<lambda>r. Return 0)) after_example =
     Some (Inr 0, after_example\<lparr>funcs := funcs after_example @ [Thunk (Factory 2), Fn 1 aNumber_guard],
                                cache := (cache after_example)(Factory 2 \<mapsto> RGuard 3),
                                calls := (calls after_example)(Factory 2 := 1)\<rparr>) \<and>
   0 < length (funcs after_example) \<and>
   apply_guard (Suc (Suc 0))
     (after_example\<lparr>funcs := funcs after_example @ [Thunk (Factory 2), Fn 1 aNumber_guard],
                    cache := (cache after_example)(Factory 2 \<mapsto> RGuard 3),
                    calls := (calls after_example)(Factory 2 := 1)\<rparr>) 0 (VNumber 42) =
     ok ''illegal <number> value, expected <string>''"
proof -
  let ?st' = "after_example\<lparr>funcs := funcs after_example @ [Thunk (Factory 2), Fn 1 aNumber_guard],
                cache := (cache after_example)(Factory 2 \<mapsto> RGuard 3),
                calls := (calls after_example)(Factory 2 := 1)\<rparr>"
  have c: "closed after_example"
    by (simp add: closed_def closure_within_def bound_def after_example_def aString_guard_def
          fun_eq_iff)
  have r: "run (Suc 0) example_env (Resolve (Factory 2) (\<lambda>r. Return 0)) after_example =
             Some (Inr 0, ?st')"
    by (simp add: run_step resolve_Factory_absent after_example_def entered_def
          example_env_def aNumber_def eval_nat_numeral)
  have l: "0 < length (funcs after_example)" by (simp add: after_example_def)
  have b: "apply_guard (Suc (Suc 0)) after_example 0 (VNumber 42) =
             ok ''illegal <number> value, expected <string>''"
    by (simp add: apply_guard_Thunk apply_guard_Fn after_example_def aString_guard_def
          illegal_def type_def)
  from guard_stable_across_completed_code [OF c r l, of "Suc (Suc 0)" "VNumber 42"] b
  have "apply_guard (Suc (Suc 0)) ?st' 0 (VNumber 42) =
          ok ''illegal <number> value, expected <string>''" by simp
  with c r l show ?thesis by blast
qed

section \<open>Properties of the guards\<close>

lemma ok_eq [simp]: "ok a = ok b \<longleftrightarrow> a = b"
  by (simp add: ok_def)

lemma ok_neq [simp]: "ok a \<noteq> None" "ok a \<noteq> Some (Inl e)" "None \<noteq> ok a" "Some (Inl e) \<noteq> ok a"
  "Some (Inr d) = ok a \<longleftrightarrow> d = a" "ok a = Some (Inr d) \<longleftrightarrow> a = d"
  by (auto simp: ok_def)

lemma array_loop_first_failure:
  assumes "i < length xs" and "c (xs ! i) = Some (Inr d)" and "d \<noteq> []"
  shows "k \<le> i \<Longrightarrow> (\<forall>j. k \<le> j \<and> j < i \<longrightarrow> c (xs ! j) = ok []) \<Longrightarrow>
         array_loop c xs k = ok (''['' @ show_nat i @ '']: '' @ d)"
proof (induction "i - k" arbitrary: k)
  case 0
  then have "k = i" by simp
  then show ?case using assms by (simp add: array_loop.simps [of c xs i])
next
  case (Suc n)
  then have lt: "k < i" and pass: "c (xs ! k) = ok []" by auto
  from Suc have "array_loop c xs (k + 1) = ok (''['' @ show_nat i @ '']: '' @ d)" by auto
  then show ?case using lt pass assms(1) by (simp add: array_loop.simps [of c xs k] ok_def)
qed

lemma array_loop_ok_iff:
  "array_loop c xs k = ok [] \<longleftrightarrow> (\<forall>j. k \<le> j \<and> j < length xs \<longrightarrow> c (xs ! j) = ok [])"
proof (induction c xs k rule: array_loop.induct)
  case (1 guard v index)
  show ?case
  proof (cases "index < length v")
    case False
    then show ?thesis by (auto simp: array_loop.simps [of guard v index])
  next
    case True
    show ?thesis
    proof (cases "guard (v ! index) = ok []")
      case pass: True
      then have "array_loop guard v index = array_loop guard v (index + 1)"
        using True by (simp add: array_loop.simps [of guard v index] ok_def)
      moreover have "array_loop guard v (index + 1) = ok [] \<longleftrightarrow>
                     (\<forall>j. index + 1 \<le> j \<and> j < length v \<longrightarrow> guard (v ! j) = ok [])"
        using 1 [OF True] pass by (simp add: ok_def)
      moreover have "(\<forall>j. index \<le> j \<and> j < length v \<longrightarrow> guard (v ! j) = ok []) \<longleftrightarrow>
                     (\<forall>j. index + 1 \<le> j \<and> j < length v \<longrightarrow> guard (v ! j) = ok [])"
        using pass by (metis Suc_eq_plus1 Suc_leI le_neq_implies_less add_leD1)
      ultimately show ?thesis by simp
    next
      case fail: False
      then have "array_loop guard v index \<noteq> ok []"
        using True
        by (auto simp: array_loop.simps [of guard v index] ok_def split: option.splits sum.splits)
      then show ?thesis using True fail by auto
    qed
  qed
qed

lemma run_resolve_opt_Some:
  "run n env (resolve_opt (Some source) k) st =
     (case resolve n env source st of
        None \<Rightarrow> None
      | Some (Inl e, st') \<Rightarrow> Some (Inl e, st')
      | Some (Inr r, st') \<Rightarrow> run n env (k (Some r)) st')"
  by (simp add: resolve_opt_def run_Resolve)

lemma run_resolve_opt_None: "run n env (resolve_opt None k) st = run n env (k None) st"
  by (simp add: resolve_opt_def)

lemma show_nat_digit: "n < 10 \<Longrightarrow> show_nat n = [digit n]"
  by (simp add: show_nat.simps)

text \<open>
  C7. \<^verbatim>\<open>anArray(element)\<close> resolves the element guarding and returns a new guard that
  closes over the resolved guard. Called on a value that is not an array, this guard returns
  \<open>illegal <type> value, expected <array>\<close>. Called on an array, it returns
  \<open>[i]: d\<close> for the first index \<open>i\<close> whose element the resolved guard rejects, with
  \<open>d\<close> the diagnostic of that element, whatever the elements after \<open>i\<close> are; and it
  returns the empty string exactly when the value is an array all of whose elements the
  resolved guard accepts.
\<close>

theorem anArray_first_failing_index:
  "run n env (anArray (Some element) Return) st =
     (case resolve n env element st of
        None \<Rightarrow> None
      | Some (Inl e, st1) \<Rightarrow> Some (Inl e, st1)
      | Some (Inr guard, st1) \<Rightarrow>
          Some (Inr (length (funcs st1)),
                st1\<lparr>funcs := funcs st1 @ [Fn 1 (anArray_guard (Some guard))]\<rparr>)) \<and>
   (g < length (funcs s) \<longrightarrow> funcs s ! g = Fn 1 (anArray_guard (Some guard)) \<longrightarrow>
      apply_guard (Suc m) s g v = anArray_guard (Some guard) (call_at m s) v) \<and>
   (\<not> isArray v \<longrightarrow>
      anArray_guard (Some guard) call v = ok (''illegal <'' @ type v @ ''> value, expected <array>'')) \<and>
   (i < length xs \<longrightarrow> (\<forall>j<i. call guard (xs ! j) = ok []) \<longrightarrow>
      call guard (xs ! i) = Some (Inr d) \<longrightarrow> d \<noteq> [] \<longrightarrow>
      anArray_guard (Some guard) call (VArray xs) = ok (''['' @ show_nat i @ '']: '' @ d)) \<and>
   (anArray_guard (Some guard) call v = ok [] \<longleftrightarrow>
      isArray v \<and> (\<forall>x \<in> set (elements v). call guard x = ok []))"
proof -
  have build: "run n env (anArray (Some element) Return) st =
     (case resolve n env element st of
        None \<Rightarrow> None
      | Some (Inl e, st1) \<Rightarrow> Some (Inl e, st1)
      | Some (Inr guard, st1) \<Rightarrow>
          Some (Inr (length (funcs st1)),
                st1\<lparr>funcs := funcs st1 @ [Fn 1 (anArray_guard (Some guard))]\<rparr>))"
    by (simp add: anArray_def run_resolve_opt_Some run_step
          split: option.splits sum.splits prod.splits)
  have app: "apply_guard (Suc m) s g v = anArray_guard (Some guard) (call_at m s) v"
    if "g < length (funcs s)" "funcs s ! g = Fn 1 (anArray_guard (Some guard))"
    using that by (rule apply_guard_Fn)
  have other: "anArray_guard (Some guard) call v =
                 ok (''illegal <'' @ type v @ ''> value, expected <array>'')"
    if "\<not> isArray v"
    using that by (simp add: anArray_guard_def illegal_def)
  have fail: "anArray_guard (Some guard) call (VArray xs) = ok (''['' @ show_nat i @ '']: '' @ d)"
    if "i < length xs" "\<forall>j<i. call guard (xs ! j) = ok []"
       "call guard (xs ! i) = Some (Inr d)" "d \<noteq> []"
    using array_loop_first_failure [where c = "call guard" and xs = xs and i = i and d = d and k = 0]
      that
    by (simp add: anArray_guard_def)
  have pass: "anArray_guard (Some guard) call v = ok [] \<longleftrightarrow>
                isArray v \<and> (\<forall>x \<in> set (elements v). call guard x = ok [])"
  proof (cases "isArray v")
    case True
    then show ?thesis
      by (simp add: anArray_guard_def array_loop_ok_iff all_set_conv_all_nth)
  next
    case False
    then show ?thesis by (simp add: anArray_guard_def illegal_def)
  qed
  from build app other fail pass show ?thesis by blast
qed

theorem anArray_first_failing_index_witness:
  "run (Suc 0) example_env (anArray (Some (Factory 2)) Return) init = Some (Inr 2, array_example) \<and>
   apply_guard (Suc (Suc 0)) array_example 2 (VArray [VNumber 1, VString ''x'', VNumber 3]) =
     ok ''[1]: illegal <string> value, expected <number>'' \<and>
   apply_guard (Suc (Suc 0)) array_example 2 (VString ''x'') =
     ok ''illegal <string> value, expected <array>'' \<and>
   apply_guard (Suc (Suc 0)) array_example 2 (VArray [VNumber 1, VNumber 2]) = ok []"
proof -
  let ?call = "call_at (Suc 0) array_example"
  have c: "?call (RGuard (Suc 0)) x = Some (Inr (if typeof x = ''number'' then [] else illegal x ''number''))" for x
    by (simp add: call_at_def call_with_def apply_guard_Fn array_example_def aNumber_guard_def ok_def)
  have r: "resolve (Suc 0) example_env (Factory 2) init =
             Some (Inr (RGuard 1), \<lparr>cache = [Factory 2 \<mapsto> RGuard 1],
                funcs = [Thunk (Factory 2), Fn 1 aNumber_guard],
                calls = (\<lambda>k. 0)(Factory 2 := 1), trace = []\<rparr>)"
    by (simp add: resolve_Factory_absent init_def entered_def example_env_def aNumber_def run_step)
  have g: "2 < length (funcs array_example)"
          "funcs array_example ! 2 = Fn 1 (anArray_guard (Some (RGuard 1)))"
    by (simp_all add: array_example_def)
  note T = anArray_first_failing_index [where n = "Suc 0" and env = example_env
      and element = "Factory 2" and st = init and g = 2 and s = array_example
      and guard = "RGuard 1" and m = "Suc 0" and call = ?call and i = 1
      and xs = "[VNumber 1, VString ''x'', VNumber 3]"
      and d = "''illegal <string> value, expected <number>''"]
  have 1: "run (Suc 0) example_env (anArray (Some (Factory 2)) Return) init = Some (Inr 2, array_example)"
    using T [of VNull] r by (simp add: array_example_def)
  have 2: "apply_guard (Suc (Suc 0)) array_example 2 (VArray [VNumber 1, VString ''x'', VNumber 3]) =
     ok ''[1]: illegal <string> value, expected <number>''"
    using T [of "VArray [VNumber 1, VString ''x'', VNumber 3]"] g
    by (simp add: c illegal_def type_def show_nat_digit digit_def less_Suc_eq ok_def)
  have 3: "apply_guard (Suc (Suc 0)) array_example 2 (VString ''x'') =
     ok ''illegal <string> value, expected <array>''"
    using T [of "VString ''x''"] g by (simp add: type_def ok_def)
  have 4: "apply_guard (Suc (Suc 0)) array_example 2 (VArray [VNumber 1, VNumber 2]) = ok []"
    using T [of "VArray [VNumber 1, VNumber 2]"] g by (simp add: c ok_def)
  from 1 2 3 4 show ?thesis by blast
qed

lemma run_resolve_all:
  "run n env (resolve_all sources k) st =
     (case resolve_each n env sources st of
        None \<Rightarrow> None
      | Some (Inl e, st1) \<Rightarrow> Some (Inl e, st1)
      | Some (Inr rs, st1) \<Rightarrow> run n env (k rs) st1)"
proof (induction sources arbitrary: k st)
  case Nil
  show ?case by simp
next
  case (Cons source sources)
  show ?case
    by (simp add: run_Resolve Cons.IH split: option.splits sum.splits prod.splits)
qed

lemma all_loop_first_failure:
  "all_loop call v guards = first_failure (map (\<lambda>r. call r v) guards)"
  by (induction guards) (auto simp: ok_def split: option.splits sum.splits)

lemma first_failure_ok_iff: "first_failure ds = ok [] \<longleftrightarrow> (\<forall>d \<in> set ds. d = ok [])"
  by (induction ds) auto

lemma first_failure_at:
  "i < length ds \<Longrightarrow> \<forall>j<i. ds ! j = ok [] \<Longrightarrow> ds ! i \<noteq> ok [] \<Longrightarrow> first_failure ds = ds ! i"
proof (induction ds arbitrary: i)
  case Nil
  then show ?case by simp
next
  case (Cons d ds)
  show ?case
  proof (cases i)
    case 0
    with Cons.prems show ?thesis by simp
  next
    case (Suc i')
    with Cons.prems have "d = ok []" by auto
    moreover have "first_failure ds = ds ! i'"
      using Cons.prems Suc by (intro Cons.IH) auto
    ultimately show ?thesis using Suc by simp
  qed
qed

lemma all_closure_body:
  "all_closure guards = Fn p body \<Longrightarrow> body call v = first_failure (map (\<lambda>r. call r v) guards)"
proof (cases guards)
  case Nil
  assume "all_closure guards = Fn p body"
  with Nil show ?thesis by (simp add: all_closure_def all0_guard_def fun_eq_iff)
next
  case (Cons a as)
  assume c: "all_closure guards = Fn p body"
  show ?thesis
  proof (cases as)
    case Nil
    with c Cons have "body = all1_guard [a]" by (simp add: all_closure_def)
    then show ?thesis using Cons Nil by (simp add: all1_guard_def)
  next
    case (Cons b bs)
    note as = this
    show ?thesis
    proof (cases bs)
      case Nil
      with c \<open>guards = a # as\<close> as have "body = all2_guard a b" by (simp add: all_closure_def)
      then show ?thesis using \<open>guards = a # as\<close> as Nil
        by (auto simp: all2_guard_def ok_def split: option.splits sum.splits)
    next
      case (Cons c' cs)
      with c \<open>guards = a # as\<close> as have "body = alln_guard guards" by (simp add: all_closure_def)
      then show ?thesis by (simp add: alln_guard_def all_loop_first_failure)
    qed
  qed
qed

text \<open>
  C6. \<^verbatim>\<open>all(sources)\<close> resolves the sources at construction time, one after the other in
  the caller's order, and returns a new guard that closes over the resolved guards in that
  order. Called on a value, this guard returns the first non-empty diagnostic of the resolved
  guards taken in order, and the empty string exactly when every resolved guard returns the
  empty string; the guard of \<^verbatim>\<open>all([])\<close> returns the empty string on every value.
\<close>

theorem all_first_failure_in_order:
  "run n env (all sources Return) st =
     (case resolve_each n env sources st of
        None \<Rightarrow> None
      | Some (Inl e, st1) \<Rightarrow> Some (Inl e, st1)
      | Some (Inr guards, st1) \<Rightarrow>
          Some (Inr (length (funcs st1)), st1\<lparr>funcs := funcs st1 @ [all_closure guards]\<rparr>)) \<and>
   (g < length (funcs s) \<longrightarrow> funcs s ! g = all_closure guards \<longrightarrow>
      apply_guard (Suc m) s g v = first_failure (map (\<lambda>r. call_at m s r v) guards) \<and>
      (apply_guard (Suc m) s g v = ok [] \<longleftrightarrow> (\<forall>r \<in> set guards. call_at m s r v = ok [])) \<and>
      (\<forall>i d. i < length guards \<longrightarrow> (\<forall>j<i. call_at m s (guards ! j) v = ok []) \<longrightarrow>
         call_at m s (guards ! i) v = Some (Inr d) \<longrightarrow> d \<noteq> [] \<longrightarrow>
         apply_guard (Suc m) s g v = ok d)) \<and>
   (g < length (funcs s) \<longrightarrow> funcs s ! g = all_closure [] \<longrightarrow> apply_guard (Suc m) s g v = ok [])"
proof -
  have build: "run n env (all sources Return) st =
     (case resolve_each n env sources st of
        None \<Rightarrow> None
      | Some (Inl e, st1) \<Rightarrow> Some (Inl e, st1)
      | Some (Inr guards, st1) \<Rightarrow>
          Some (Inr (length (funcs st1)), st1\<lparr>funcs := funcs st1 @ [all_closure guards]\<rparr>))"
    by (simp add: all_def run_resolve_all run_step split: option.splits sum.splits prod.splits)
  have app: "apply_guard (Suc m) s g v = first_failure (map (\<lambda>r. call_at m s r v) gs)"
    if "g < length (funcs s)" "funcs s ! g = all_closure gs" for gs
  proof -
    obtain p body where c: "all_closure gs = Fn p body"
      by (cases "all_closure gs") (auto simp: all_closure_def split: if_splits)
    with that have "apply_guard (Suc m) s g v = body (call_at m s) v"
      by (simp add: apply_guard_Fn)
    with c show ?thesis by (simp add: all_closure_body)
  qed
  have pass: "apply_guard (Suc m) s g v = ok [] \<longleftrightarrow> (\<forall>r \<in> set guards. call_at m s r v = ok [])"
    if "g < length (funcs s)" "funcs s ! g = all_closure guards"
    using app [OF that] by (auto simp: first_failure_ok_iff)
  have fail: "apply_guard (Suc m) s g v = ok d"
    if "g < length (funcs s)" "funcs s ! g = all_closure guards" "i < length guards"
      "\<forall>j<i. call_at m s (guards ! j) v = ok []" "call_at m s (guards ! i) v = Some (Inr d)"
      "d \<noteq> []" for i d
  proof -
    let ?ds = "map (\<lambda>r. call_at m s r v) guards"
    have "first_failure ?ds = ?ds ! i"
      using that(3-6) by (intro first_failure_at) (auto simp: ok_def)
    then show ?thesis using app [OF that(1,2)] that(3,5) by (simp add: ok_def)
  qed
  have empty: "apply_guard (Suc m) s g v = ok []"
    if "g < length (funcs s)" "funcs s ! g = all_closure []"
    using app [OF that] by simp
  from build app pass fail empty show ?thesis by blast
qed

theorem all_first_failure_in_order_witness:
  "run (Suc 0) example_env (all [Factory 2, Factory 3] Return) init = Some (Inr 4, all_example) \<and>
   4 < length (funcs all_example) \<and>
   funcs all_example ! 4 = all_closure [RGuard 1, RGuard 3] \<and>
   apply_guard (Suc (Suc 0)) all_example 4 (VBoolean True) =
     ok ''illegal <boolean> value, expected <number>'' \<and>
   apply_guard (Suc (Suc 0)) all_example 4 (VNumber 123) =
     ok ''illegal <number> value, expected <string>'' \<and>
   apply_guard (Suc 0) (init\<lparr>funcs := [all_closure []]\<rparr>) 0 (VNumber 123) = ok []"
proof -
  let ?call = "call_at (Suc 0) all_example"
  have c1: "?call (RGuard (Suc 0)) x = Some (Inr (if typeof x = ''number'' then [] else illegal x ''number''))" for x
    by (simp add: call_at_def call_with_def apply_guard_Fn all_example_def aNumber_guard_def ok_def)
  have c3: "?call (RGuard 3) x = Some (Inr (if typeof x = ''string'' then [] else illegal x ''string''))" for x
    by (simp add: call_at_def call_with_def apply_guard_Fn all_example_def aString_guard_def ok_def)
  have r: "resolve_each (Suc 0) example_env [Factory 2, Factory 3] init =
             Some (Inr [RGuard 1, RGuard 3],
               \<lparr>cache = [Factory 2 \<mapsto> RGuard 1, Factory 3 \<mapsto> RGuard 3],
                funcs = [Thunk (Factory 2), Fn 1 aNumber_guard, Thunk (Factory 3), Fn 1 aString_guard],
                calls = (\<lambda>k. 0)(Factory 2 := 1, Factory 3 := 1), trace = []\<rparr>)"
    by (simp add: resolve_Factory_absent init_def entered_def example_env_def aNumber_def
          aString_def run_step eval_nat_numeral)
  have g: "4 < length (funcs all_example)" "funcs all_example ! 4 = all_closure [RGuard 1, RGuard 3]"
    by (simp_all add: all_example_def all_closure_def eval_nat_numeral)
  have g0: "0 < length (funcs (init\<lparr>funcs := [all_closure []]\<rparr>))"
           "funcs (init\<lparr>funcs := [all_closure []]\<rparr>) ! 0 = all_closure []"
    by simp_all
  note T = all_first_failure_in_order [where n = "Suc 0" and env = example_env
      and sources = "[Factory 2, Factory 3]" and st = init and g = 4 and s = all_example
      and guards = "[RGuard 1, RGuard 3]" and m = "Suc 0"]
  have 1: "run (Suc 0) example_env (all [Factory 2, Factory 3] Return) init = Some (Inr 4, all_example)"
    using T [of VNull] r by (simp add: all_example_def all_closure_def)
  have 2: "apply_guard (Suc (Suc 0)) all_example 4 (VBoolean True) =
             ok ''illegal <boolean> value, expected <number>''"
    using T [of "VBoolean True"] g by (simp add: c1 c3 illegal_def type_def ok_def)
  have 3: "apply_guard (Suc (Suc 0)) all_example 4 (VNumber 123) =
             ok ''illegal <number> value, expected <string>''"
    using T [of "VNumber 123"] g by (simp add: c1 c3 illegal_def type_def ok_def)
  have 4: "apply_guard (Suc 0) (init\<lparr>funcs := [all_closure []]\<rparr>) 0 (VNumber 123) = ok []"
    using all_first_failure_in_order [where g = 0 and s = "init\<lparr>funcs := [all_closure []]\<rparr>"
        and m = 0 and v = "VNumber 123"] g0 by blast
  from 1 g 2 3 4 show ?thesis by blast
qed

subsection \<open>The order of the keys of an object\<close>




lemma object_entries_indices:
  "filter (\<lambda>p. is_index (fst p)) (object_entries ps) =
     sort_key (\<lambda>p. number_of (fst p)) (filter (\<lambda>p. is_index (fst p)) ps)"
  by (simp add: object_entries_def filter_sort filter_empty_conv)

lemma object_entries_others:
  "filter (\<lambda>p. \<not> is_index (fst p)) (object_entries ps) = filter (\<lambda>p. \<not> is_index (fst p)) ps"
  by (simp add: object_entries_def filter_sort filter_empty_conv)

lemma object_entries_split:
  "object_entries ps =
     filter (\<lambda>p. is_index (fst p)) (object_entries ps) @
     filter (\<lambda>p. \<not> is_index (fst p)) (object_entries ps)"
  unfolding object_entries_indices object_entries_others by (simp add: object_entries_def)

lemma object_entries_sorted:
  "sorted (map (\<lambda>p. number_of (fst p)) (filter (\<lambda>p. is_index (fst p)) (object_entries ps)))"
  unfolding object_entries_indices by simp

text \<open>A list that has the keys of an enumeration is listed as it is.\<close>

lemma object_entries_same_keys:
  assumes "map fst qs = map fst (object_entries ps)"
  shows "object_entries qs = qs"
proof -
  let ?I = "\<lambda>p. is_index (fst p)" and ?f = "\<lambda>p. number_of (fst p)"
  define n where "n = length (filter ?I (object_entries ps))"
  have keys: "map fst (object_entries ps) =
                map fst (filter ?I (object_entries ps)) @
                map fst (filter (\<lambda>p. \<not> ?I p) (object_entries ps))"
    using object_entries_split [of ps] by (metis map_append)
  have a: "map fst (take n qs) = map fst (filter ?I (object_entries ps))"
    unfolding n_def using assms keys by (metis append_eq_conv_conj length_map take_map)
  have b: "map fst (drop n qs) = map fst (filter (\<lambda>p. \<not> ?I p) (object_entries ps))"
    unfolding n_def using assms keys by (metis append_eq_conv_conj length_map drop_map)
  have ia: "\<forall>q \<in> set (take n qs). ?I q"
  proof
    fix q assume "q \<in> set (take n qs)"
    then have "fst q \<in> set (map fst (take n qs))" by simp
    then have "fst q \<in> set (map fst (filter ?I (object_entries ps)))" unfolding a .
    then show "?I q" by auto
  qed
  have ib: "\<forall>q \<in> set (drop n qs). \<not> ?I q"
  proof
    fix q assume "q \<in> set (drop n qs)"
    then have "fst q \<in> set (map fst (drop n qs))" by simp
    then have "fst q \<in> set (map fst (filter (\<lambda>p. \<not> ?I p) (object_entries ps)))" unfolding b .
    then show "\<not> ?I q" by auto
  qed
  have "map ?f (take n qs) = map number_of (map fst (take n qs))" by simp
  also have "\<dots> = map ?f (filter ?I (object_entries ps))" unfolding a by simp
  finally have s: "sorted (map ?f (take n qs))" using object_entries_sorted [of ps] by simp
  have f1: "filter ?I (take n qs @ drop n qs) = take n qs"
    using ia ib by (simp add: filter_empty_conv filter_id_conv del: append_take_drop_id)
  have f2: "filter (\<lambda>p. \<not> ?I p) (take n qs @ drop n qs) = drop n qs"
    using ia ib by (simp add: filter_empty_conv filter_id_conv del: append_take_drop_id)
  have "object_entries (take n qs @ drop n qs) = take n qs @ drop n qs"
    unfolding object_entries_def f1 f2 using s by (simp add: sort_key_id_if_sorted)
  then show ?thesis by simp
qed

lemma object_entries_idem: "object_entries (object_entries ps) = object_entries ps"
  by (rule object_entries_same_keys) simp

subsection \<open>any\<close>

lemma error_of_nonempty [simp]: "error_of expected v \<noteq> []"
  by (simp add: error_of_def)

lemma any_loop_pass:
  "any_loop call expected v guards = ok [] \<Longrightarrow> \<exists>r \<in> set guards. call r v = ok []"
  by (induction guards) (auto simp: ok_def split: option.splits sum.splits if_splits)

lemma any_loop_returns:
  "\<forall>r \<in> set guards. \<exists>d. call r v = Some (Inr d) \<Longrightarrow>
   any_loop call expected v guards =
     (if \<exists>r \<in> set guards. call r v = ok [] then ok [] else ok (error_of expected v))"
  by (induction guards) (auto simp: ok_def split: option.splits sum.splits)

lemma any_closure_body:
  assumes "any_closure keys guards = Fn p body"
  shows "body call v =
           (if guards = [] then ok (''unexpected <'' @ type v @ ''> value'')
            else any_loop call (expected_of (map (\<lambda>name. ''<'' @ label name @ ''>'') keys)) v guards)"
proof (cases guards)
  case Nil
  with assms show ?thesis by (simp add: any_closure_def any0_guard_def fun_eq_iff)
next
  case (Cons a as)
  note guards = this
  show ?thesis
  proof (cases as)
    case Nil
    with assms guards show ?thesis
      by (auto simp: any_closure_def any1_guard_def Let_def ok_def split: option.splits sum.splits)
  next
    case (Cons b bs)
    note as = this
    show ?thesis
    proof (cases bs)
      case Nil
      with assms guards as show ?thesis
        by (auto simp: any_closure_def any2_guard_def Let_def ok_def split: option.splits sum.splits)
    next
      case (Cons c cs)
      with assms guards as show ?thesis
        by (auto simp: any_closure_def anyn_guard_def Let_def)
    qed
  qed
qed

lemma expected_of_two: "expected_of [a, b] = a @ '' or '' @ b"
  by (simp add: expected_of_def)

lemma expected_of_many:
  "2 \<le> length names \<Longrightarrow> expected_of names = join '', '' (butlast names) @ '' or '' @ last names"
  by (auto simp: expected_of_def)

lemma not_capital_n: "\<not> isCapital CHR ''n''"
  by (simp add: isCapital_def)

lemma strip_article_a: "isCapital c \<Longrightarrow> strip_article (CHR ''a'' # c # cs) = c # cs"
  by (cases cs) (auto simp: not_capital_n)

lemma strip_article_an: "isCapital c \<Longrightarrow> strip_article (CHR ''a'' # CHR ''n'' # c # cs) = c # cs"
  by simp

lemma strip_article_other:
  "\<not> (\<exists>c cs. isCapital c \<and> (name = CHR ''a'' # c # cs \<or> name = CHR ''a'' # CHR ''n'' # c # cs)) \<Longrightarrow>
   strip_article name = name"
  by (induction name rule: strip_article.induct) auto

lemma types_table:
  "types = [(''Null'', ''null''), (''Boolean'', ''boolean''), (''Number'', ''number''),
            (''String'', ''string''), (''Function'', ''function'')]"
  by code_simp

text \<open>
  The label of a name whose stripped form is no member of \<^verbatim>\<open>Object.prototype\<close>, and
  the label of a name whose stripped form is one.
\<close>

lemma label_cases:
  "map_of object_prototype (strip_article name) = None \<Longrightarrow>
   label name =
     (if strip_article name \<in> set [''Null'', ''Boolean'', ''Number'', ''String'', ''Function'']
      then toLowerCase (strip_article name) else strip_article name)"
proof -
  have keys: "map fst types = [''Null'', ''Boolean'', ''Number'', ''String'', ''Function'']"
    by (simp add: types_def)
  have "map_of types x = (if x \<in> set (map fst types) then Some (toLowerCase x) else None)" for x
    unfolding types_def by (simp add: map_of_map_restrict restrict_map_def)
  then show "map_of object_prototype (strip_article name) = None \<Longrightarrow> ?thesis"
    unfolding label_def Let_def keys by simp
qed

lemma label_member:
  "map_of object_prototype (strip_article name) = Some conv \<Longrightarrow> label name = conv"
proof -
  assume m: "map_of object_prototype (strip_article name) = Some conv"
  then have "strip_article name \<in> fst ` set object_prototype" by (metis map_of_eq_None_iff option.distinct(1))
  then have "map_of types (strip_article name) = None"
    by (auto simp: object_prototype_def types_table)
  with m show ?thesis by (simp add: label_def)
qed

text \<open>
  What \<^verbatim>\<open>any(sources)\<close> builds and what its guard returns. \<^verbatim>\<open>any\<close> resolves the
  sources in the order in which \<^verbatim>\<open>Object.entries\<close> lists them and returns a new guard
  that closes over the resolved guards. When every resolved guard returns a diagnostic, this
  guard returns the empty string exactly when one of them returns the empty string, and it
  never returns the empty string otherwise; when there is at least one branch and none passes
  it returns \<open>unexpected <type> value, expected\<close> followed by the labels, two labels
  joined by \<open>or\<close>, more by commas with \<open>or\<close> before the last; with no source it returns
  \<open>unexpected <type> value\<close> on every value. The label of a key that, without a leading
  \<open>a\<close> or \<open>an\<close> standing before a capital, names no member of
  \<^verbatim>\<open>Object.prototype\<close> is that stripped key, in lower case when it is one of Null,
  Boolean, Number, String, Function.
\<close>

lemma any_guard_returns:
  "run n env (any sources Return) st =
     (case resolve_each n env (map snd (object_entries sources)) st of
        None \<Rightarrow> None
      | Some (Inl e, st1) \<Rightarrow> Some (Inl e, st1)
      | Some (Inr guards, st1) \<Rightarrow>
          Some (Inr (length (funcs st1)),
                st1\<lparr>funcs := funcs st1 @ [any_closure (map fst (object_entries sources)) guards]\<rparr>)) \<and>
   (any_closure keys guards = Fn p body \<longrightarrow>
      (body call v = ok [] \<longrightarrow> (\<exists>r \<in> set guards. call r v = ok [])) \<and>
      ((\<forall>r \<in> set guards. \<exists>d. call r v = Some (Inr d)) \<longrightarrow>
         (body call v = ok [] \<longleftrightarrow> (\<exists>r \<in> set guards. call r v = ok []))) \<and>
      (guards \<noteq> [] \<longrightarrow> (\<forall>r \<in> set guards. \<exists>d. call r v = Some (Inr d) \<and> d \<noteq> []) \<longrightarrow>
         body call v =
           ok (''unexpected <'' @ type v @ ''> value, expected '' @
               expected_of (map (\<lambda>name. ''<'' @ label name @ ''>'') keys))) \<and>
      (guards = [] \<longrightarrow> body call v = ok (''unexpected <'' @ type v @ ''> value''))) \<and>
   expected_of [a, b] = a @ '' or '' @ b \<and>
   (2 \<le> length names \<longrightarrow>
      expected_of names = join '', '' (butlast names) @ '' or '' @ last names) \<and>
   (isCapital c \<longrightarrow> strip_article (CHR ''a'' # c # cs) = c # cs) \<and>
   (isCapital c \<longrightarrow> strip_article (CHR ''a'' # CHR ''n'' # c # cs) = c # cs) \<and>
   (\<not> (\<exists>c cs. isCapital c \<and> (name = CHR ''a'' # c # cs \<or> name = CHR ''a'' # CHR ''n'' # c # cs)) \<longrightarrow>
      strip_article name = name) \<and>
   (map_of object_prototype (strip_article name) = None \<longrightarrow>
      label name =
        (if strip_article name \<in> set [''Null'', ''Boolean'', ''Number'', ''String'', ''Function'']
         then toLowerCase (strip_article name) else strip_article name))"
proof -
  have build: "run n env (any sources Return) st =
     (case resolve_each n env (map snd (object_entries sources)) st of
        None \<Rightarrow> None
      | Some (Inl e, st1) \<Rightarrow> Some (Inl e, st1)
      | Some (Inr guards, st1) \<Rightarrow>
          Some (Inr (length (funcs st1)),
                st1\<lparr>funcs := funcs st1 @ [any_closure (map fst (object_entries sources)) guards]\<rparr>))"
    by (simp add: any_def run_resolve_all run_step split: option.splits sum.splits prod.splits)
  let ?exp = "expected_of (map (\<lambda>name. ''<'' @ label name @ ''>'') keys)"
  have body: "body call v =
           (if guards = [] then ok (''unexpected <'' @ type v @ ''> value'')
            else any_loop call ?exp v guards)"
    if "any_closure keys guards = Fn p body"
    using that by (rule any_closure_body)
  have only: "\<exists>r \<in> set guards. call r v = ok []"
    if "any_closure keys guards = Fn p body" "body call v = ok []"
    using body [OF that(1)] that(2) any_loop_pass [of call ?exp v guards]
    by (auto split: if_splits)
  have iff: "body call v = ok [] \<longleftrightarrow> (\<exists>r \<in> set guards. call r v = ok [])"
    if "any_closure keys guards = Fn p body" "\<forall>r \<in> set guards. \<exists>d. call r v = Some (Inr d)"
    using body [OF that(1)]
      any_loop_returns [where call = call and v = v and guards = guards and expected = ?exp] that(2)
    by auto
  have synth: "body call v = ok (''unexpected <'' @ type v @ ''> value, expected '' @ ?exp)"
    if "any_closure keys guards = Fn p body" "guards \<noteq> []"
       "\<forall>r \<in> set guards. \<exists>d. call r v = Some (Inr d) \<and> d \<noteq> []"
  proof -
    from that(3) have ret: "\<forall>r \<in> set guards. \<exists>d. call r v = Some (Inr d)" by blast
    from that(3) have none: "\<not> (\<exists>r \<in> set guards. call r v = ok [])" by (auto simp: ok_def)
    show ?thesis
      using body [OF that(1)] that(2) ret none
        any_loop_returns [where call = call and v = v and guards = guards and expected = ?exp]
      by (simp add: error_of_def)
  qed
  have zero: "body call v = ok (''unexpected <'' @ type v @ ''> value'')"
    if "any_closure keys guards = Fn p body" "guards = []"
    using body [OF that(1)] that(2) by simp
  from build only iff synth zero expected_of_two expected_of_many strip_article_a
    strip_article_an strip_article_other label_cases
  show ?thesis by blast
qed

lemma label_examples:
  "label ''aNumber'' = ''number''" "label ''aString'' = ''string''" "label ''anObject'' = ''Object''"
  "label ''constructor'' = ''function Object() { [native code] }''"
  "strip_article ''aNumber'' = ''Number''" "strip_article ''anObject'' = ''Object''"
  "isCapital CHR ''N''" "isCapital CHR ''O''"
  by (simp_all add: label_def types_table object_prototype_def native_def isCapital_def)

lemma names_examples:
  "object_entries [(''aNumber'', x), (''aString'', y)] = [(''aNumber'', x), (''aString'', y)]"
  "object_entries [(''constructor'', x), (''aString'', y)] = [(''constructor'', x), (''aString'', y)]"
  by (simp_all add: object_entries_def is_index_def digit_of_def)

lemma any_example_calls:
  "funcs s = [Thunk (Factory 2), Fn 1 aNumber_guard, Thunk (Factory 3), Fn 1 aString_guard, c] \<Longrightarrow>
   call_at (Suc 0) s (RGuard (Suc 0)) x =
     Some (Inr (if typeof x = ''number'' then [] else illegal x ''number''))"
  "funcs s = [Thunk (Factory 2), Fn 1 aNumber_guard, Thunk (Factory 3), Fn 1 aString_guard, c] \<Longrightarrow>
   call_at (Suc 0) s (RGuard 3) x =
     Some (Inr (if typeof x = ''string'' then [] else illegal x ''string''))"
  by (simp_all add: call_at_def call_with_def apply_guard_Fn aNumber_guard_def aString_guard_def
        ok_def eval_nat_numeral)

lemma any_example_resolved:
  "resolve_each (Suc 0) example_env [Factory 2, Factory 3] init =
     Some (Inr [RGuard 1, RGuard 3],
       \<lparr>cache = [Factory 2 \<mapsto> RGuard 1, Factory 3 \<mapsto> RGuard 3],
        funcs = [Thunk (Factory 2), Fn 1 aNumber_guard, Thunk (Factory 3), Fn 1 aString_guard],
        calls = (\<lambda>k. 0)(Factory 2 := 1, Factory 3 := 1), trace = []\<rparr>)"
  by (simp add: resolve_Factory_absent init_def entered_def example_env_def aNumber_def
        aString_def run_step eval_nat_numeral)

text \<open>
  C5. The rule the claim gives for the labels fails on a key that names a member of
  \<^verbatim>\<open>Object.prototype\<close>: \<^verbatim>\<open>types[stripped]\<close> then finds the inherited member, and
  the message shows the text of a built-in function where the claim has the key. For
  \<^verbatim>\<open>any({constructor: f2, aString: f3})\<close>, built in the initial state with the
  factories of the examples, the guard returns on \<^verbatim>\<open>true\<close> a message whose first label
  is the text of the function \<^verbatim>\<open>Object\<close>, not \<open>constructor\<close>.
\<close>

theorem any_label_of_inherited_member:
  "run (Suc 0) example_env (any [(''constructor'', Factory 2), (''aString'', Factory 3)] Return) init =
     Some (Inr 4, any_constructor_example) \<and>
   apply_guard (Suc (Suc 0)) any_constructor_example 4 (VBoolean True) =
     ok ''unexpected <boolean> value, expected <function Object() { [native code] }> or <string>'' \<and>
   label ''constructor'' = ''function Object() { [native code] }'' \<and>
   label ''constructor'' \<noteq> ''constructor''"
proof -
  let ?call = "call_at (Suc 0) any_constructor_example"
  let ?body = "any2_guard ''<function Object() { [native code] }> or <string>'' (RGuard 1) (RGuard 3)"
  have f: "funcs any_constructor_example =
             [Thunk (Factory 2), Fn 1 aNumber_guard, Thunk (Factory 3), Fn 1 aString_guard, Fn 1 ?body]"
    by (simp add: any_constructor_example_def)
  have cl: "any_closure [''constructor'', ''aString''] [RGuard 1, RGuard 3] = Fn 1 ?body"
    by (simp add: any_closure_def Let_def expected_of_def label_examples)
  have 1: "run (Suc 0) example_env
             (any [(''constructor'', Factory 2), (''aString'', Factory 3)] Return) init =
           Some (Inr 4, any_constructor_example)"
  proof -
    have e: "map snd (object_entries [(''constructor'', Factory 2), (''aString'', Factory 3)]) =
               [Factory 2, Factory 3]"
            "map fst (object_entries [(''constructor'', Factory 2), (''aString'', Factory 3)]) =
               [''constructor'', ''aString'']"
      by (simp_all add: names_examples)
    show ?thesis
      using any_guard_returns [where n = "Suc 0" and env = example_env and st = init
          and sources = "[(''constructor'', Factory 2), (''aString'', Factory 3)]", THEN conjunct1]
      unfolding e any_example_resolved
      by (simp add: cl [simplified] any_constructor_example_def)
  qed
  have 2: "apply_guard (Suc (Suc 0)) any_constructor_example 4 (VBoolean True) =
             ok ''unexpected <boolean> value, expected <function Object() { [native code] }> or <string>''"
  proof -
    have "apply_guard (Suc (Suc 0)) any_constructor_example 4 (VBoolean True) =
            ?body ?call (VBoolean True)"
      by (rule apply_guard_Fn) (simp_all add: f eval_nat_numeral)
    then show ?thesis
      by (simp add: any2_guard_def any_example_calls [OF f] illegal_def type_def error_of_def ok_def)
  qed
  from 1 2 label_examples(4) show ?thesis by simp
qed

subsection \<open>anObject with a schema\<close>
















section \<open>Properties of the validating cast\<close>

lemma isFrozen_freeze: "isFrozen (freeze obj)"
  by (auto simp: isFrozen_def freeze_def list_all_iff)

lemma frozen_desc_map:
  "map (\<lambda>(k, d). (k, d\<lparr>writable := False, configurable := False\<rparr>)) ps = map frozen_desc ps"
  by (simp add: frozen_desc_def case_prod_beta)

lemma freeze_props: "props (freeze obj) = map frozen_desc (props obj)"
  by (simp add: freeze_def frozen_desc_map)

lemma frozen_lookup:
  assumes "isFrozen obj" and "map_of (props obj) key = Some cur"
  shows "\<not> writable cur \<and> \<not> configurable cur"
proof -
  from assms(2) have "(key, cur) \<in> set (props obj)" by (rule map_of_SomeD)
  with assms(1) show ?thesis by (auto simp: isFrozen_def list_all_iff)
qed

text \<open>No attempt on a property of a frozen object changes the object.\<close>

lemma frozen_mutate:
  assumes f: "isFrozen obj" and r: "mutate obj m = Some res"
  shows "snd res = obj"
proof -
  from r obtain cur where cur: "map_of (props obj) (target m) = Some cur"
    by (auto simp: mutate_def split: if_splits option.splits)
  with f have n: "\<not> writable cur" "\<not> configurable cur" using frozen_lookup by blast+
  from r cur n show ?thesis
    by (cases m) (auto simp: mutate_def split: if_splits)
qed

lemma map_of_frozen_mark:
  "map_of ps Guarded = None \<Longrightarrow>
   map_of (map frozen_desc (ps @ [(Guarded, d)])) Guarded =
     Some (d\<lparr>writable := False, configurable := False\<rparr>)"
  by (induction ps) (auto simp: frozen_desc_def)

lemma define_guarded_new:
  "extensible obj \<Longrightarrow> map_of (props obj) Guarded = None \<Longrightarrow>
   define_guarded obj guarding =
     Inr (obj\<lparr>props := props obj @
            [(Guarded, \<lparr>pvalue = Mark guarding, writable = False, enumerable = False,
                        configurable = True\<rparr>)]\<rparr>)"
  by (simp add: define_guarded_def)

lemma set_own_keys: "set (own_keys ps) = set ps"
  by (auto simp: own_keys_def)

lemma filter_unmarked: "map_of (filter (\<lambda>(key, d). key \<noteq> Guarded) ps) Guarded = None"
  by (induction ps) auto

lemma copy_unmarked: "map_of (props (extensible_copy obj)) Guarded = None"
  by (simp add: extensible_copy_def filter_unmarked)

lemma brand_extensible:
  assumes "extensible (h ! a)" and "map_of (props (h ! a)) Guarded = None"
  shows "brand guarding h a =
           (Inr (Ref a),
            h[a := (h ! a)\<lparr>extensible := False,
                           props := map frozen_desc (props (h ! a)) @ [mark_of guarding]\<rparr>])"
  using assms
  by (simp add: brand_def define_guarded_new freeze_def frozen_desc_map mark_of_def
        frozen_desc_def)

lemma brand_not_extensible:
  assumes "\<not> extensible (h ! a)"
  shows "brand guarding h a =
           (Inr (Ref (length h)),
            h @ [\<lparr>okind = OrdinaryObject, proto = Some Object_prototype, extensible = False,
                  props = map frozen_desc
                            (filter (\<lambda>(key, d). key \<noteq> Guarded) (own_keys (props (h ! a)))) @
                          [mark_of guarding]\<rparr>])"
proof -
  have e: "extensible (extensible_copy (h ! a))" by (simp add: extensible_copy_def)
  show ?thesis
    using assms
    by (simp add: brand_def define_guarded_new [OF e copy_unmarked] freeze_def frozen_desc_map
          mark_of_def)
       (simp add: extensible_copy_def frozen_desc_def)
qed

lemma marked_mark: "map_of ps Guarded = None \<Longrightarrow>
   map_of (map frozen_desc ps @ [mark_of guarding]) Guarded = Some (snd (mark_of guarding))"
  by (induction ps) (auto simp: frozen_desc_def mark_of_def)

lemma frozen_branded:
  "isFrozen (obj\<lparr>extensible := False, props := map frozen_desc ps @ [mark_of guarding]\<rparr>)"
  by (simp add: isFrozen_def list_all_iff frozen_desc_def mark_of_def)

lemma unmarked_if_extensible:
  "marked_frozen h \<Longrightarrow> a < length h \<Longrightarrow> extensible (h ! a) \<Longrightarrow>
   map_of (props (h ! a)) Guarded = None"
  by (auto simp: marked_frozen_def list_all_length marked_def isFrozen_def)

lemma find_property_own:
  "a < length h \<Longrightarrow> map_of (props (h ! a)) key = Some d \<Longrightarrow>
   find_property (length h) h a key = Some d"
  by (cases "length h") auto

lemma as_cast_fast:
  "a < length h \<Longrightarrow> get_guarded h (Ref a) = Some (Mark guarding) \<Longrightarrow>
   as_cast conv guard guarding n st h (Ref a) = Some (Inr (Ref a), h)"
  by (simp add: as_cast_def is_object_def)

lemma as_cast_accepted:
  "a < length h \<Longrightarrow> get_guarded h (Ref a) \<noteq> Some (Mark guarding) \<Longrightarrow>
   call_at n st guard (view conv h (Ref a)) = ok [] \<Longrightarrow>
   as_cast conv guard guarding n st h (Ref a) = Some (brand guarding h a)"
  by (simp add: as_cast_def is_object_def ok_def)

lemma as_cast_returns:
  assumes "a < length h" and "get_guarded h (Ref a) \<noteq> Some (Mark guarding)"
    and "as_cast conv guard guarding n st h (Ref a) = Some (Inr first, h1)"
  shows "call_at n st guard (view conv h (Ref a)) = ok []"
  using assms
  by (auto simp: as_cast_def is_object_def ok_def split: option.splits sum.splits if_splits)

lemma marked_frozen_update:
  "marked_frozen h \<Longrightarrow> isFrozen obj \<Longrightarrow> marked_frozen (h[a := obj])"
  unfolding marked_frozen_def list_all_iff
  using set_update_subset_insert [of h a obj] by auto

lemma marked_frozen_append:
  "marked_frozen h \<Longrightarrow> isFrozen obj \<Longrightarrow> marked_frozen (h @ [obj])"
  by (simp add: marked_frozen_def)

lemma get_guarded_marked:
  "b < length h \<Longrightarrow> map_of (props (h ! b)) Guarded = Some (snd (mark_of guarding)) \<Longrightarrow>
   get_guarded h (Ref b) = Some (Mark guarding)"
  by (simp add: get_guarded_def find_property_own mark_of_def)

text \<open>
  C10. When the cast validates a record or an array (it does not find the mark of its
  guarding on it) and the guard accepts it: if the object is not extensible, the cast returns
  a new reference, to a new ordinary object that has the own properties of the input but the
  one under \<^verbatim>\<open>Guarded\<close>, in the order of \<^verbatim>\<open>Reflect.ownKeys\<close> and with their
  values, made non-writable and non-configurable (so with the very descriptors of the input
  when the input was frozen), followed by the mark; the new object is frozen and every object
  of the heap, the input among them, is as it was. If the object is extensible, the cast
  returns the input reference, and the input itself now has the mark and is frozen.
\<close>

theorem cast_copies_when_not_extensible:
  assumes "a < length h" and "marked_frozen h"
    and "get_guarded h (Ref a) \<noteq> Some (Mark guarding)"
    and "call_at n st guard (view conv h (Ref a)) = ok []"
    and "structural (h ! a)"
  shows "(\<not> extensible (h ! a) \<longrightarrow>
            as_cast conv guard guarding n st h (Ref a) =
              Some (Inr (Ref (length h)),
                    h @ [\<lparr>okind = OrdinaryObject, proto = Some Object_prototype,
                          extensible = False,
                          props = map frozen_desc
                                    (filter (\<lambda>(key, d). key \<noteq> Guarded)
                                       (own_keys (props (h ! a)))) @
                                  [mark_of guarding]\<rparr>]) \<and>
            Ref (length h) \<noteq> Ref a \<and>
            (\<forall>b<length h.
               (h @ [\<lparr>okind = OrdinaryObject, proto = Some Object_prototype,
                       extensible = False,
                       props = map frozen_desc
                                 (filter (\<lambda>(key, d). key \<noteq> Guarded)
                                    (own_keys (props (h ! a)))) @
                               [mark_of guarding]\<rparr>]) ! b = h ! b) \<and>
            set (filter (\<lambda>(key, d). key \<noteq> Guarded) (own_keys (props (h ! a)))) =
              {p \<in> set (props (h ! a)). fst p \<noteq> Guarded} \<and>
            (isFrozen (h ! a) \<longrightarrow>
               map frozen_desc (filter (\<lambda>(key, d). key \<noteq> Guarded) (own_keys (props (h ! a)))) =
               filter (\<lambda>(key, d). key \<noteq> Guarded) (own_keys (props (h ! a)))) \<and>
            isFrozen \<lparr>okind = OrdinaryObject, proto = Some Object_prototype,
                      extensible = False,
                      props = map frozen_desc
                                (filter (\<lambda>(key, d). key \<noteq> Guarded)
                                   (own_keys (props (h ! a)))) @
                              [mark_of guarding]\<rparr>) \<and>
         (extensible (h ! a) \<longrightarrow>
            as_cast conv guard guarding n st h (Ref a) =
              Some (Inr (Ref a),
                    h[a := (h ! a)\<lparr>extensible := False,
                                   props := map frozen_desc (props (h ! a)) @ [mark_of guarding]\<rparr>]) \<and>
            isFrozen ((h ! a)\<lparr>extensible := False,
                              props := map frozen_desc (props (h ! a)) @ [mark_of guarding]\<rparr>))"
proof -
  let ?ps = "filter (\<lambda>(key, d). key \<noteq> Guarded) (own_keys (props (h ! a)))"
  have cast: "as_cast conv guard guarding n st h (Ref a) = Some (brand guarding h a)"
    using assms(1,3,4) by (rule as_cast_accepted)
  have same: "map frozen_desc ?ps = ?ps" if "isFrozen (h ! a)"
  proof -
    have "frozen_desc p = p" if "p \<in> set (props (h ! a))" for p
      using that \<open>isFrozen (h ! a)\<close>
      by (cases p) (auto simp: isFrozen_def list_all_iff frozen_desc_def)
    then show ?thesis by (intro map_idI) (auto simp: set_own_keys)
  qed
  have members: "set ?ps = {p \<in> set (props (h ! a)). fst p \<noteq> Guarded}"
    by (auto simp: set_own_keys)
  have frozen1: "isFrozen \<lparr>okind = OrdinaryObject, proto = Some Object_prototype,
                      extensible = False, props = map frozen_desc ?ps @ [mark_of guarding]\<rparr>"
    by (simp add: isFrozen_def list_all_iff frozen_desc_def mark_of_def)
  have frozen2: "isFrozen ((h ! a)\<lparr>extensible := False,
                              props := map frozen_desc (props (h ! a)) @ [mark_of guarding]\<rparr>)"
    by (rule frozen_branded)
  have fresh: "Ref (length h) \<noteq> Ref a" using assms(1) by simp
  have kept: "(h @ [obj]) ! b = h ! b" if "b < length h" for b obj
    using that by (simp add: nth_append)
  show ?thesis
    using cast brand_not_extensible [of h a guarding] fresh same members frozen1 frozen2 kept
      brand_extensible [OF _ unmarked_if_extensible [OF assms(2,1)], of guarding]
    by simp
qed

text \<open>
  When the mark the cast finds on an object is the object's own, what the cast returns is
  a reference to a frozen object; the cast applied to it returns it again and leaves the heap
  as it is, without calling the guard (whatever the state and the fuel); and no assignment to
  a property of the object, no deletion and no redefinition of one changes the object.
\<close>

lemma cast_result_frozen:
  assumes "a < length h" and "marked_frozen h"
    and own: "get_guarded h (Ref a) = Some (Mark guarding) \<Longrightarrow> marked (h ! a)"
    and "as_cast conv guard guarding n st h (Ref a) = Some (Inr first, h1)"
  shows "\<exists>b. first = Ref b \<and> b < length h1 \<and> isFrozen (h1 ! b) \<and> marked_frozen h1 \<and>
             (\<forall>m st'. as_cast conv guard guarding m st' h1 first = Some (Inr first, h1)) \<and>
             (\<forall>mu res. mutate (h1 ! b) mu = Some res \<longrightarrow> snd res = h1 ! b)"
proof -
  have goal: "\<exists>b'. Ref b = Ref b' \<and> b' < length h1 \<and> isFrozen (h1 ! b') \<and> marked_frozen h1 \<and>
             (\<forall>m st'. as_cast conv guard guarding m st' h1 (Ref b) = Some (Inr (Ref b), h1)) \<and>
             (\<forall>mu res. mutate (h1 ! b') mu = Some res \<longrightarrow> snd res = h1 ! b')"
    if b: "b < length h1" and f: "isFrozen (h1 ! b)" and m: "marked_frozen h1"
      and g: "get_guarded h1 (Ref b) = Some (Mark guarding)" for b
    using that as_cast_fast [OF b g] frozen_mutate [OF f] by auto
  show ?thesis
  proof (cases "get_guarded h (Ref a) = Some (Mark guarding)")
    case True
    with assms(1,4) have r: "first = Ref a" "h1 = h" by (simp_all add: as_cast_fast)
    from True have "marked (h ! a)" by (rule own)
    with assms(1,2) have "isFrozen (h ! a)" by (simp add: marked_frozen_def list_all_length)
    with goal [of a] assms(1,2) True r show ?thesis by simp
  next
    case False
    have acc: "call_at n st guard (view conv h (Ref a)) = ok []"
      using assms(1) False assms(4) by (rule as_cast_returns)
    have cast: "as_cast conv guard guarding n st h (Ref a) = Some (brand guarding h a)"
      using assms(1) False acc by (rule as_cast_accepted)
    show ?thesis
    proof (cases "extensible (h ! a)")
      case True
      let ?obj = "(h ! a)\<lparr>extensible := False,
                            props := map frozen_desc (props (h ! a)) @ [mark_of guarding]\<rparr>"
      have un: "map_of (props (h ! a)) Guarded = None"
        using assms(2,1) True by (rule unmarked_if_extensible)
      from cast assms(4) brand_extensible [OF True un, of guarding]
      have r: "first = Ref a" "h1 = h[a := ?obj]" by simp_all
      have b: "a < length h1" using assms(1) r by simp
      have o: "h1 ! a = ?obj" using assms(1) r by simp
      have f: "isFrozen (h1 ! a)" unfolding o by (rule frozen_branded)
      have m: "marked_frozen h1" unfolding r using assms(2) f [unfolded o]
        by (rule marked_frozen_update)
      have "map_of (props (h1 ! a)) Guarded = Some (snd (mark_of guarding))"
        unfolding o using marked_mark [OF un] by simp
      with b have g: "get_guarded h1 (Ref a) = Some (Mark guarding)" by (rule get_guarded_marked)
      from goal [OF b f m g] show ?thesis by (simp add: r(1))
    next
      case False
      let ?ps = "filter (\<lambda>(key, d). key \<noteq> Guarded) (own_keys (props (h ! a)))"
      let ?obj = "\<lparr>okind = OrdinaryObject, proto = Some Object_prototype, extensible = False,
                   props = map frozen_desc ?ps @ [mark_of guarding]\<rparr>"
      from cast assms(4) brand_not_extensible [OF False, of guarding]
      have r: "first = Ref (length h)" "h1 = h @ [?obj]" by simp_all
      have b: "length h < length h1" using r by simp
      have o: "h1 ! length h = ?obj" using r by simp
      have f: "isFrozen (h1 ! length h)" unfolding o
        by (simp add: isFrozen_def list_all_iff frozen_desc_def mark_of_def)
      have m: "marked_frozen h1" unfolding r using assms(2) f [unfolded o]
        by (rule marked_frozen_append)
      have "map_of (props (h1 ! length h)) Guarded = Some (snd (mark_of guarding))"
        unfolding o using marked_mark [OF filter_unmarked] by simp
      with b have g: "get_guarded h1 (Ref (length h)) = Some (Mark guarding)"
        by (rule get_guarded_marked)
      from goal [OF b f m g] show ?thesis by (simp add: r(1))
    qed
  qed
qed

lemma cast_example_facts:
  "marked_frozen cast_heap"
  "Suc 0 < length cast_heap" "Suc (Suc 0) < length cast_heap"
  "structural (cast_heap ! Suc 0)" "structural (cast_heap ! Suc (Suc 0))"
  "extensible (cast_heap ! Suc 0)" "\<not> extensible (cast_heap ! Suc (Suc 0))"
  "get_guarded cast_heap (Ref (Suc 0)) \<noteq> Some (Mark (Guard 0))"
  "get_guarded cast_heap (Ref (Suc (Suc 0))) \<noteq> Some (Mark (Guard 0))"
  "call_at (Suc 0) cast_state (RGuard 0) (view plain_conv cast_heap (Ref (Suc 0))) = ok []"
  "call_at (Suc 0) cast_state (RGuard 0) (view plain_conv cast_heap (Ref (Suc (Suc 0)))) = ok []"
  by (simp_all add: cast_heap_def cast_state_def marked_frozen_def marked_def isFrozen_def
        structural_def get_guarded_def call_at_def call_with_def apply_guard_Fn view_def
        view_object_def object_guard_def init_def Object_prototype_def open_property_def
        frozen_property_def eval_nat_numeral)

lemma name_is_no_index: "\<not> is_index ''name''"
  by (simp add: is_index_def digit_of_def)

lemma cast_example_results:
  "(cast_heap ! Suc 0)\<lparr>extensible := False,
       props := map frozen_desc (props (cast_heap ! Suc 0)) @ [mark_of (Guard 0)]\<rparr> = alice_branded"
  "\<lparr>okind = OrdinaryObject, proto = Some Object_prototype, extensible = False,
    props = map frozen_desc (filter (\<lambda>(key, d). key \<noteq> Guarded)
                               (own_keys (props (cast_heap ! Suc (Suc 0))))) @
            [mark_of (Guard 0)]\<rparr> = bob_copy"
  "length cast_heap = Suc (Suc (Suc 0))"
  by (simp_all add: cast_heap_def alice_branded_def bob_copy_def frozen_desc_def own_keys_def
        key_index_def is_name_def name_is_no_index open_property_def frozen_property_def)

theorem cast_copies_when_not_extensible_witness:
  "Suc (Suc 0) < length cast_heap \<and> marked_frozen cast_heap \<and>
   structural (cast_heap ! Suc 0) \<and> structural (cast_heap ! Suc (Suc 0)) \<and>
   get_guarded cast_heap (Ref (Suc (Suc 0))) \<noteq> Some (Mark (Guard 0)) \<and>
   call_at (Suc 0) cast_state (RGuard 0) (view plain_conv cast_heap (Ref (Suc (Suc 0)))) = ok [] \<and>
   \<not> extensible (cast_heap ! Suc (Suc 0)) \<and>
   as_cast plain_conv (RGuard 0) (Guard 0) (Suc 0) cast_state cast_heap (Ref (Suc (Suc 0))) =
     Some (Inr (Ref (Suc (Suc (Suc 0)))), cast_heap @ [bob_copy]) \<and>
   extensible (cast_heap ! Suc 0) \<and>
   as_cast plain_conv (RGuard 0) (Guard 0) (Suc 0) cast_state cast_heap (Ref (Suc 0)) =
     Some (Inr (Ref (Suc 0)), cast_heap[Suc 0 := alice_branded])"
proof -
  note f = cast_example_facts
  have 1: "as_cast plain_conv (RGuard 0) (Guard 0) (Suc 0) cast_state cast_heap (Ref (Suc (Suc 0))) =
             Some (Inr (Ref (Suc (Suc (Suc 0)))), cast_heap @ [bob_copy])"
    using cast_copies_when_not_extensible [OF f(3) f(1) f(9) f(11) f(5), THEN conjunct1, THEN mp,
        OF f(7), THEN conjunct1]
    by (simp add: cast_example_results)
  have 2: "as_cast plain_conv (RGuard 0) (Guard 0) (Suc 0) cast_state cast_heap (Ref (Suc 0)) =
             Some (Inr (Ref (Suc 0)), cast_heap[Suc 0 := alice_branded])"
    using cast_copies_when_not_extensible [OF f(2) f(1) f(8) f(10) f(4), THEN conjunct2, THEN mp,
        OF f(6), THEN conjunct1]
    by (simp add: cast_example_results)
  from f(3) f(1) f(4) f(5) f(9) f(11) f(7) 1 f(6) 2 show ?thesis by (intro conjI)
qed

lemma word_lengths: "nat (sint (0 :: 54 word)) = 0" "nat (sint (2 :: 54 word)) = Suc (Suc 0)"
  by simp_all

lemma numerals_shown: "show_nat 0 = ''0''" "show_nat (Suc 0) = ''1''"
  by (simp_all add: show_nat_digit digit_def)

lemma array_prototype_unmarked: "get_guarded array_heap (Ref (Suc 0)) = None"
  by (simp add: array_heap_def get_guarded_def Object_prototype_def length_property_def)

lemma pair_array_inherits_mark:
  "get_guarded array_heap_branded (Ref (Suc (Suc 0))) = Some (Mark (Guard (Suc 0)))"
  by (simp add: array_heap_branded_def pair_array_def get_guarded_def Object_prototype_def
        length_property_def open_property_def mark_of_def)

lemma array_prototype_view: "view conv array_heap (Ref (Suc 0)) = VArray []"
  by (simp add: array_heap_def view_def view_object_def array_length_def data_of_def
        length_property_def word_lengths)

lemma pair_array_view:
  "view conv array_heap_branded (Ref (Suc (Suc 0))) = VArray [VNumber 1, VNumber 2]"
  by (simp add: array_heap_branded_def pair_array_def view_def view_object_def array_length_def
        data_of_def length_property_def open_property_def word_lengths numerals_shown
        upt_rec [of 0] upt_rec [of "Suc 0"])

lemma array_heap_facts:
  "array_heap_branded ! Suc (Suc 0) = pair_array"
  "Suc 0 < length array_heap" "Suc (Suc 0) < length array_heap_branded"
  "extensible (array_heap ! Suc 0)"
  "map_of (props (array_heap ! Suc 0)) Guarded = None"
  by (simp_all add: array_heap_def array_heap_branded_def length_property_def)

lemma array_prototype_branded:
  "array_heap[Suc 0 := (array_heap ! Suc 0)\<lparr>extensible := False,
       props := map frozen_desc (props (array_heap ! Suc 0)) @ [mark_of (Guard (Suc 0))]\<rparr>] =
     array_heap_branded"
  by (simp add: array_heap_def array_heap_branded_def length_property_def frozen_desc_def)

lemmas array_example_facts =
  array_prototype_unmarked pair_array_inherits_mark array_prototype_view pair_array_view
  array_heap_facts array_prototype_branded

lemma array_example_guard:
  "call_at (Suc (Suc 0)) array_cast_state (RGuard (Suc 0)) (VArray xs) =
     array_loop (call_at (Suc 0) array_cast_state (RGuard 0)) xs 0"
  "call_at (Suc 0) array_cast_state (RGuard 0) x =
     ok (if typeof x = ''number'' then [] else illegal x ''number'')"
  by (simp_all add: call_at_def call_with_def apply_guard_Fn array_cast_state_def init_def
        anArray_guard_def aNumber_guard_def)

text \<open>
  C3. The cast \<open>G\<close> of \<^verbatim>\<open>anArray(aNumber())\<close> accepts \<^verbatim>\<open>Array.prototype\<close>, an
  array of length 0, and so marks and freezes it. From then on every array whose prototype
  it is reads the mark of \<open>G\<close> through its prototype chain. The array \<^verbatim>\<open>[1, 2]\<close>, which
  \<open>G\<close> accepts, is then returned by \<^verbatim>\<open>as(G)\<close> as it is: the heap is unchanged, the
  array has no mark of its own and is not frozen, and an assignment to its first element
  succeeds and changes it.
\<close>

theorem cast_returns_unfrozen_array_with_inherited_mark:
  "as_cast conv (RGuard 1) (Guard 1) (Suc (Suc 0)) array_cast_state array_heap (Ref 1) =
     Some (Inr (Ref 1), array_heap_branded) \<and>
   call_at (Suc (Suc 0)) array_cast_state (RGuard 1) (view conv array_heap_branded (Ref 2)) = ok [] \<and>
   as_cast conv (RGuard 1) (Guard 1) (Suc (Suc 0)) array_cast_state array_heap_branded (Ref 2) =
     Some (Inr (Ref 2), array_heap_branded) \<and>
   array_heap_branded ! 2 = pair_array \<and>
   map_of (props pair_array) Guarded = None \<and>
   \<not> isFrozen pair_array \<and>
   mutate pair_array (Assign (Name ''0'') (Data (VString ''x''))) =
     Some (True, pair_array\<lparr>props := [open_property ''0'' (VString ''x''),
                                      open_property ''1'' (VNumber 2),
                                      length_property True 2]\<rparr>) \<and>
   pair_array\<lparr>props := [open_property ''0'' (VString ''x''), open_property ''1'' (VNumber 2),
                        length_property True 2]\<rparr> \<noteq> pair_array"
proof -
  note f = array_example_facts
  have acc1: "call_at (Suc (Suc 0)) array_cast_state (RGuard (Suc 0))
                (view conv array_heap (Ref (Suc 0))) = ok []"
    unfolding f(3) array_example_guard(1) by (simp add: array_loop_ok_iff)
  have acc2: "call_at (Suc (Suc 0)) array_cast_state (RGuard (Suc 0))
                (view conv array_heap_branded (Ref (Suc (Suc 0)))) = ok []"
    unfolding f(4) array_example_guard(1)
    by (simp add: array_loop_ok_iff array_example_guard(2) less_Suc_eq)
  have 1: "as_cast conv (RGuard (Suc 0)) (Guard (Suc 0)) (Suc (Suc 0)) array_cast_state array_heap
             (Ref (Suc 0)) = Some (Inr (Ref (Suc 0)), array_heap_branded)"
    using as_cast_accepted [OF f(6) _ acc1, of "Guard (Suc 0)"]
      brand_extensible [OF f(8) f(9), of "Guard (Suc 0)"]
    by (simp add: f(1) f(10))
  have 3: "as_cast conv (RGuard (Suc 0)) (Guard (Suc 0)) (Suc (Suc 0)) array_cast_state
             array_heap_branded (Ref (Suc (Suc 0))) =
           Some (Inr (Ref (Suc (Suc 0))), array_heap_branded)"
    using f(7) f(2) by (rule as_cast_fast)
  have 5: "map_of (props pair_array) Guarded = None"
    by (simp add: pair_array_def open_property_def length_property_def)
  have 6: "\<not> isFrozen pair_array"
    by (simp add: pair_array_def isFrozen_def)
  have 7: "mutate pair_array (Assign (Name ''0'') (Data (VString ''x''))) =
     Some (True, pair_array\<lparr>props := [open_property ''0'' (VString ''x''),
                                      open_property ''1'' (VNumber 2),
                                      length_property True 2]\<rparr>)"
    by (simp add: mutate_def pair_array_def open_property_def length_property_def)
  have 8: "pair_array\<lparr>props := [open_property ''0'' (VString ''x''), open_property ''1'' (VNumber 2),
                        length_property True 2]\<rparr> \<noteq> pair_array"
    by (simp add: pair_array_def open_property_def)
  from 1 acc2 3 f(5) 5 6 7 8 show ?thesis by (simp add: eval_nat_numeral)
qed


end
